theory Spec2Isabelle
  imports Main "HOL-Library.Word" "HOL-Library.Log_Nat" "HOL-Library.Signed_Division"
begin

unbundle bit_operations_syntax

section \<open>Objects, the host runtime and the isolate\<close>

text \<open>
  The tables of \<^verbatim>\<open>src/objects/ordered-hash-table.cc\<close> store tagged values. The model
  keeps three kinds of them: the hole sentinel that marks a tombstone, small integers, and
  references to heap objects. Heap numbers are left out, so the floating point cases of
  same-value-zero never arise.
\<close>

datatype object = TheHole | Smi int | HeapObject nat

datatype error = RangeError_kTooManyProperties | CheckFailed

datatype variant = SetVariant | MapVariant | NameDictionaryVariant

datatype InternalIndex = NotFound | Entry int

type_synonym addr = nat

text \<open>
  The constants and primitives that the file uses and that are declared elsewhere
  (\<^verbatim>\<open>ordered-hash-table.h\<close>, \<^verbatim>\<open>objects.h\<close>, \<^verbatim>\<open>name.h\<close>) are parameters of the model:
  \<^item> \<open>kInitialCapacity\<close>, \<open>kNotFound\<close>, \<open>kClearedTableSentinel\<close>, \<open>MaxCapacity\<close> of the
    large form, \<open>OrderedHashTableMinSize\<close> and \<open>kNoHashSentinel\<close>;
  \<^item> \<open>SameValueZero\<close>, the key equality;
  \<^item> \<open>CreateHash\<close>, the identity hash that \<open>GetOrCreateHash\<close> gives an object that has
    none yet;
  \<^item> \<open>NameHash\<close>, the hash field of a unique name (\<open>key->hash()\<close>).
\<close>

record host =
  kInitialCapacity :: int
  kNotFound :: int
  kClearedTableSentinel :: int
  MaxCapacity :: int
  OrderedHashTableMinSize :: int
  kNoHashSentinel :: int
  SameValueZero :: "object \<Rightarrow> object \<Rightarrow> bool"
  CreateHash :: "object \<Rightarrow> int"
  NameHash :: "object \<Rightarrow> int"

text \<open>Modelled from the spec: the load factor of both forms is 2.\<close>

definition kLoadFactor :: int where
  "kLoadFactor = 2"

text \<open>
  A table of the large form. The header fields are those the accessors of the source name;
  the bucket array, the chain links and the payload slots are kept apart instead of being
  one flat array, so \<open>set(HashTableStartIndex() + b, x)\<close> is a write to \<open>buckets\<close>,
  \<open>set(EntryToIndexRaw(e) + i, x)\<close> for \<open>i < entrysize\<close> is a write to slot \<open>i\<close> of
  \<open>data ! e\<close>, and \<open>set(EntryToIndexRaw(e) + kChainOffset, x)\<close> is a write to \<open>chains\<close>.

  Modelled from the spec: \<open>NextTable\<close> is the optional forwarding pointer (a table is
  obsolete once it is set), and \<open>removed\<close> is the removed-indices log that
  \<open>SetRemovedIndexAt\<close> writes and \<open>RemovedIndexAt\<close> reads.
\<close>

record table =
  NumberOfBuckets :: int
  NumberOfElements :: int
  NumberOfDeletedElements :: int
  NextTable :: "addr option"
  Hash :: int
  buckets :: "int list"
  chains :: "int list"
  data :: "object list list"
  removed :: "int \<Rightarrow> int"

text \<open>
  The isolate carries the mutable state: the large tables by address (a handle is an
  index into \<open>heap\<close>) and the identity hash of every object that has one.
\<close>

record isolate =
  heap :: "table list"
  hashes :: "object \<Rightarrow> int option"

definition GetHash :: "isolate \<Rightarrow> object \<Rightarrow> int option" where
  "GetHash isolate key = hashes isolate key"

definition GetOrCreateHash :: "host \<Rightarrow> isolate \<Rightarrow> object \<Rightarrow> int \<times> isolate" where
  "GetOrCreateHash H isolate key =
     (case hashes isolate key of
        Some h \<Rightarrow> (h, isolate)
      | None \<Rightarrow> (CreateHash H key, isolate\<lparr>hashes := (hashes isolate)(key \<mapsto> CreateHash H key)\<rparr>))"

definition IsTheHole :: "object \<Rightarrow> bool" where
  "IsTheHole key = (key = TheHole)"

section \<open>Accessors of the large form\<close>

definition entrysize :: "variant \<Rightarrow> nat" where
  "entrysize v = (case v of SetVariant \<Rightarrow> 1 | MapVariant \<Rightarrow> 2 | NameDictionaryVariant \<Rightarrow> 3)"

definition kKeyIndex :: nat where "kKeyIndex = 0"
definition kValueOffset :: nat where "kValueOffset = 1"
definition kPropertyDetailsOffset :: nat where "kPropertyDetailsOffset = 2"

definition Capacity :: "table \<Rightarrow> int" where
  "Capacity t = NumberOfBuckets t * kLoadFactor"

definition UsedCapacity :: "table \<Rightarrow> int" where
  "UsedCapacity t = NumberOfElements t + NumberOfDeletedElements t"

definition IsObsolete :: "table \<Rightarrow> bool" where
  "IsObsolete t = (NextTable t \<noteq> None)"

definition IterateEntries :: "table \<Rightarrow> int list" where
  "IterateEntries t = map int [0 ..< nat (UsedCapacity t)]"

text \<open>
  The accessors of the three arrays. The source reads and writes the backing store with
  no bounds check of its own, so an index outside an array is a defect of the caller, and
  what the source then does, reading or overwriting some other cell of the backing store,
  is not modelled: here a write at such an index leaves the table as it is, and a read
  there is unspecified. The properties proved below are about operations that have the
  room they need: their hypotheses put the slot indices that are written inside the arrays.
\<close>

definition get_data :: "table \<Rightarrow> int \<Rightarrow> nat \<Rightarrow> object" where
  "get_data t entry i = data t ! nat entry ! i"

definition set_data :: "table \<Rightarrow> int \<Rightarrow> nat \<Rightarrow> object \<Rightarrow> table" where
  "set_data t entry i x = t\<lparr>data := (data t)[nat entry := (data t ! nat entry)[i := x]]\<rparr>"

definition KeyAt :: "table \<Rightarrow> int \<Rightarrow> object" where
  "KeyAt t entry = get_data t entry kKeyIndex"

definition get_bucket :: "table \<Rightarrow> int \<Rightarrow> int" where
  "get_bucket t b = buckets t ! nat b"

definition set_bucket :: "table \<Rightarrow> int \<Rightarrow> int \<Rightarrow> table" where
  "set_bucket t b e = t\<lparr>buckets := (buckets t)[nat b := e]\<rparr>"

definition NextChainEntryRaw :: "table \<Rightarrow> int \<Rightarrow> int" where
  "NextChainEntryRaw t entry = chains t ! nat entry"

definition set_chain :: "table \<Rightarrow> int \<Rightarrow> int \<Rightarrow> table" where
  "set_chain t entry e = t\<lparr>chains := (chains t)[nat entry := e]\<rparr>"

definition HashToBucket :: "table \<Rightarrow> int \<Rightarrow> int" where
  "HashToBucket t hash = hash AND (NumberOfBuckets t - 1)"

definition HashToEntryRaw :: "table \<Rightarrow> int \<Rightarrow> int" where
  "HashToEntryRaw t hash = get_bucket t (HashToBucket t hash)"

definition SetRemovedIndexAt :: "table \<Rightarrow> int \<Rightarrow> int \<Rightarrow> table" where
  "SetRemovedIndexAt t i removed_index = t\<lparr>removed := (removed t)(i := removed_index)\<rparr>"

definition RemovedIndexAt :: "table \<Rightarrow> int \<Rightarrow> int" where
  "RemovedIndexAt t i = removed t i"

section \<open>Allocation of the large form\<close>

text \<open>
  Modelled from the spec: \<open>base::bits::RoundUpToPowerOfTwo32\<close> rounds an unsigned 32-bit
  value up to the next power of two. The source passes it an \<open>int\<close> and assigns the
  result to an \<open>int\<close>; both conversions are written out in \<open>Allocate\<close>.
\<close>

definition RoundUpToPowerOfTwo32 :: "32 word \<Rightarrow> 32 word" where
  "RoundUpToPowerOfTwo32 v = push_bit (floorlog 2 (unat v - 1)) 1"

text \<open>
  Modelled from the spec: the allocator hands out a backing store whose chain links are
  \<open>kNotFound\<close> and whose payload slots hold the hole; \<open>Allocate\<close> itself writes the
  buckets and the three counters.
\<close>

definition NewFixedArrayWithMap :: "host \<Rightarrow> variant \<Rightarrow> int \<Rightarrow> int \<Rightarrow> table" where
  "NewFixedArrayWithMap H v num_buckets capacity =
     \<lparr> NumberOfBuckets = 0, NumberOfElements = 0, NumberOfDeletedElements = 0,
       NextTable = None, Hash = 0,
       buckets = replicate (nat num_buckets) 0,
       chains = replicate (nat capacity) (kNotFound H),
       data = replicate (nat capacity) (replicate (entrysize v) TheHole),
       removed = (\<lambda>_. 0) \<rparr>"

definition Allocate :: "host \<Rightarrow> variant \<Rightarrow> isolate \<Rightarrow> int \<Rightarrow> error + (isolate \<times> addr)" where
  "Allocate H v isolate capacity0 =
     (let capacity = sint (RoundUpToPowerOfTwo32 (word_of_int (max (kInitialCapacity H) capacity0)))
      in if capacity > MaxCapacity H then Inl RangeError_kTooManyProperties
         else
           let num_buckets = capacity sdiv kLoadFactor;
               raw_table = NewFixedArrayWithMap H v num_buckets capacity;
               raw_table = raw_table\<lparr>buckets := replicate (nat num_buckets) (kNotFound H)\<rparr>;
               raw_table = raw_table\<lparr>NumberOfBuckets := num_buckets\<rparr>;
               raw_table = raw_table\<lparr>NumberOfElements := 0\<rparr>;
               raw_table = raw_table\<lparr>NumberOfDeletedElements := 0\<rparr>
           in Inr (isolate\<lparr>heap := heap isolate @ [raw_table]\<rparr>, length (heap isolate)))"

definition Derived_Allocate :: "host \<Rightarrow> variant \<Rightarrow> isolate \<Rightarrow> int \<Rightarrow> error + (isolate \<times> addr)" where
  "Derived_Allocate H v isolate capacity =
     (case Allocate H v isolate capacity of
        Inl e \<Rightarrow> Inl e
      | Inr (isolate', a) \<Rightarrow>
          if v = NameDictionaryVariant
          then Inr (isolate'\<lparr>heap := (heap isolate')[a := (heap isolate' ! a)\<lparr>Hash := kNoHashSentinel H\<rparr>]\<rparr>, a)
          else Inr (isolate', a))"

section \<open>Rehash, EnsureCapacityForAdding and Clear of the large form\<close>

text \<open>
  One pass of the loop of \<open>OrderedHashTable::Rehash\<close> over an old entry. The state is the
  source table, the new table, \<open>new_entry\<close> and \<open>removed_holes_index\<close>. \<open>Smi::ToInt\<close>
  of a key's hash is \<open>the\<close> of \<open>GetHash\<close>: the source does not test for a missing hash here.
\<close>

definition copy_entry :: "variant \<Rightarrow> table \<Rightarrow> int \<Rightarrow> table \<Rightarrow> int \<Rightarrow> table" where
  "copy_entry v table old_entry new_table new_entry =
     fold (\<lambda>i nt. set_data nt new_entry i (get_data table old_entry i)) [0 ..< entrysize v] new_table"

definition Rehash_step ::
  "variant \<Rightarrow> isolate \<Rightarrow> int \<Rightarrow> table \<times> table \<times> int \<times> int \<Rightarrow> table \<times> table \<times> int \<times> int" where
  "Rehash_step v isolate old_entry s =
     (case s of (table, new_table, new_entry, removed_holes_index) \<Rightarrow>
        let key = KeyAt table old_entry in
        if IsTheHole key
        then (SetRemovedIndexAt table removed_holes_index old_entry, new_table, new_entry,
              removed_holes_index + 1)
        else
          let hash = the (GetHash isolate key);
              bucket = hash AND (NumberOfBuckets new_table - 1);
              chain_entry = get_bucket new_table bucket;
              new_table = set_bucket new_table bucket new_entry;
              new_table = copy_entry v table old_entry new_table new_entry;
              new_table = set_chain new_table new_entry chain_entry
          in (table, new_table, new_entry + 1, removed_holes_index))"

definition Rehash :: "host \<Rightarrow> variant \<Rightarrow> isolate \<Rightarrow> addr \<Rightarrow> int \<Rightarrow> error + (isolate \<times> addr)" where
  "Rehash H v isolate a new_capacity =
     (case Derived_Allocate H v isolate new_capacity of
        Inl e \<Rightarrow> Inl e
      | Inr (isolate1, na) \<Rightarrow>
          (case fold (Rehash_step v isolate1) (IterateEntries (heap isolate1 ! a))
                  (heap isolate1 ! a, heap isolate1 ! na, 0, 0) of
             (table, new_table, new_entry, removed_holes_index) \<Rightarrow>
               let new_table = new_table\<lparr>NumberOfElements := NumberOfElements table\<rparr>;
                   table = (if NumberOfBuckets table > 0 then table\<lparr>NextTable := Some na\<rparr> else table)
               in Inr (isolate1\<lparr>heap := (heap isolate1)[a := table, na := new_table]\<rparr>, na)))"

definition Derived_Rehash :: "host \<Rightarrow> variant \<Rightarrow> isolate \<Rightarrow> addr \<Rightarrow> int \<Rightarrow> error + (isolate \<times> addr)" where
  "Derived_Rehash H v isolate a new_capacity =
     (case Rehash H v isolate a new_capacity of
        Inl e \<Rightarrow> Inl e
      | Inr (isolate1, na) \<Rightarrow>
          if v = NameDictionaryVariant
          then Inr (isolate1\<lparr>heap := (heap isolate1)[na := (heap isolate1 ! na)\<lparr>Hash := Hash (heap isolate1 ! a)\<rparr>]\<rparr>, na)
          else Inr (isolate1, na))"

definition EnsureCapacityForAdding :: "host \<Rightarrow> variant \<Rightarrow> isolate \<Rightarrow> addr \<Rightarrow> error + (isolate \<times> addr)" where
  "EnsureCapacityForAdding H v isolate a =
     (let table = heap isolate ! a;
          nof = NumberOfElements table;
          nod = NumberOfDeletedElements table;
          capacity = Capacity table
      in if nof + nod < capacity then Inr (isolate, a)
         else
           let new_capacity =
                 (if capacity = 0 then kInitialCapacity H
                  else if nod \<ge> drop_bit 1 capacity then capacity
                  else push_bit 1 capacity)
           in Derived_Rehash H v isolate a new_capacity)"

text \<open>\<open>ToHandleChecked\<close> on an empty handle is a failed \<open>CHECK\<close>.\<close>

definition Clear :: "host \<Rightarrow> variant \<Rightarrow> isolate \<Rightarrow> addr \<Rightarrow> error + (isolate \<times> addr)" where
  "Clear H v isolate a =
     (case Allocate H v isolate (kInitialCapacity H) of
        Inl e \<Rightarrow> Inl CheckFailed
      | Inr (isolate1, new_table) \<Rightarrow>
          let table = heap isolate1 ! a in
          if NumberOfBuckets table > 0
          then
            let table = table\<lparr>NextTable := Some new_table\<rparr>;
                table = table\<lparr>NumberOfDeletedElements := kClearedTableSentinel H\<rparr>
            in Inr (isolate1\<lparr>heap := (heap isolate1)[a := table]\<rparr>, new_table)
          else Inr (isolate1, new_table))"

section \<open>Add of the large form\<close>

text \<open>
  The chain walk \<open>while (raw_entry != kNotFound)\<close> that \<open>FindEntry\<close> and the three \<open>Add\<close>
  functions share. Nothing in the code bounds it, so it is a partial function: \<open>None\<close> is
  a walk that never ends. The sentinel is a parameter, since the two forms differ in it.
\<close>

partial_function (option) FindInChain ::
  "int \<Rightarrow> (object \<Rightarrow> object \<Rightarrow> bool) \<Rightarrow> table \<Rightarrow> object \<Rightarrow> int \<Rightarrow> InternalIndex option" where
  "FindInChain not_found same t key raw_entry =
     (if raw_entry = not_found then Some NotFound
      else if same (KeyAt t raw_entry) key then Some (Entry raw_entry)
      else FindInChain not_found same t key (NextChainEntryRaw t raw_entry))"

declare FindInChain.simps [code]

text \<open>
  An exception drops the state: the model returns the error alone. The outer \<open>option\<close>
  is \<open>None\<close> when the chain walk does not end.
\<close>

definition OrderedHashSet_Add ::
  "host \<Rightarrow> isolate \<Rightarrow> addr \<Rightarrow> object \<Rightarrow> (error + (isolate \<times> addr)) option" where
  "OrderedHashSet_Add H isolate0 table key =
     (case GetOrCreateHash H isolate0 key of (hash, isolate) \<Rightarrow>
      case (if NumberOfElements (heap isolate ! table) > 0
            then FindInChain (kNotFound H) (SameValueZero H) (heap isolate ! table) key
                   (HashToEntryRaw (heap isolate ! table) hash)
            else Some NotFound) of
        None \<Rightarrow> None
      | Some (Entry raw_entry) \<Rightarrow> Some (Inr (isolate, table))
      | Some NotFound \<Rightarrow>
          (case EnsureCapacityForAdding H SetVariant isolate table of
             Inl e \<Rightarrow> Some (Inl e)
           | Inr (isolate, table) \<Rightarrow>
               let raw_table = heap isolate ! table;
                   bucket = HashToBucket raw_table hash;
                   previous_entry = HashToEntryRaw raw_table hash;
                   nof = NumberOfElements raw_table;
                   new_entry = nof + NumberOfDeletedElements raw_table;
                   raw_table = set_data raw_table new_entry kKeyIndex key;
                   raw_table = set_chain raw_table new_entry previous_entry;
                   raw_table = set_bucket raw_table bucket new_entry;
                   raw_table = raw_table\<lparr>NumberOfElements := nof + 1\<rparr>
               in Some (Inr (isolate\<lparr>heap := (heap isolate)[table := raw_table]\<rparr>, table))))"

definition OrderedHashMap_Add ::
  "host \<Rightarrow> isolate \<Rightarrow> addr \<Rightarrow> object \<Rightarrow> object \<Rightarrow> (error + (isolate \<times> addr)) option" where
  "OrderedHashMap_Add H isolate0 table key val =
     (case GetOrCreateHash H isolate0 key of (hash, isolate) \<Rightarrow>
      case (if NumberOfElements (heap isolate ! table) > 0
            then FindInChain (kNotFound H) (SameValueZero H) (heap isolate ! table) key
                   (HashToEntryRaw (heap isolate ! table) hash)
            else Some NotFound) of
        None \<Rightarrow> None
      | Some (Entry raw_entry) \<Rightarrow> Some (Inr (isolate, table))
      | Some NotFound \<Rightarrow>
          (case EnsureCapacityForAdding H MapVariant isolate table of
             Inl e \<Rightarrow> Some (Inl e)
           | Inr (isolate, table) \<Rightarrow>
               let raw_table = heap isolate ! table;
                   bucket = HashToBucket raw_table hash;
                   previous_entry = HashToEntryRaw raw_table hash;
                   nof = NumberOfElements raw_table;
                   new_entry = nof + NumberOfDeletedElements raw_table;
                   raw_table = set_data raw_table new_entry kKeyIndex key;
                   raw_table = set_data raw_table new_entry kValueOffset val;
                   raw_table = set_chain raw_table new_entry previous_entry;
                   raw_table = set_bucket raw_table bucket new_entry;
                   raw_table = raw_table\<lparr>NumberOfElements := nof + 1\<rparr>
               in Some (Inr (isolate\<lparr>heap := (heap isolate)[table := raw_table]\<rparr>, table))))"

text \<open>
  \<open>OrderedNameDictionary::Add\<close> looks for the key in a \<open>DCHECK\<close> only, which a release
  build does not run: the function itself never walks a chain.
\<close>

definition OrderedNameDictionary_Add ::
  "host \<Rightarrow> isolate \<Rightarrow> addr \<Rightarrow> object \<Rightarrow> object \<Rightarrow> object \<Rightarrow> (error + (isolate \<times> addr)) option" where
  "OrderedNameDictionary_Add H isolate0 table0 key val details =
     (case EnsureCapacityForAdding H NameDictionaryVariant isolate0 table0 of
        Inl e \<Rightarrow> Some (Inl e)
      | Inr (isolate, table) \<Rightarrow>
          let raw_table = heap isolate ! table;
              hash = NameHash H key;
              bucket = HashToBucket raw_table hash;
              previous_entry = HashToEntryRaw raw_table hash;
              nof = NumberOfElements raw_table;
              new_entry = nof + NumberOfDeletedElements raw_table;
              raw_table = set_data raw_table new_entry kKeyIndex key;
              raw_table = set_data raw_table new_entry kValueOffset val;
              raw_table = set_data raw_table new_entry kPropertyDetailsOffset details;
              raw_table = set_chain raw_table new_entry previous_entry;
              raw_table = set_bucket raw_table bucket new_entry;
              raw_table = raw_table\<lparr>NumberOfElements := nof + 1\<rparr>
          in Some (Inr (isolate\<lparr>heap := (heap isolate)[table := raw_table]\<rparr>, table)))"

section \<open>The small form\<close>

text \<open>
  A small table has the same conceptual layout, so the model reuses the record; the small
  form has no forwarding pointer and no removed-indices log, and never touches these two
  fields. \<open>GetFirstEntry\<close>/\<open>SetFirstEntry\<close> are \<open>get_bucket\<close>/\<open>set_bucket\<close>,
  \<open>GetNextEntry\<close>/\<open>SetNextEntry\<close> are \<open>NextChainEntryRaw\<close>/\<open>set_chain\<close>, and
  \<open>GetDataEntry\<close>/\<open>SetDataEntry\<close> are \<open>get_data\<close>/\<open>set_data\<close>.

  Modelled from the spec: the byte \<open>kNotFound\<close> is 0xFF, \<open>kMaxCapacity\<close> is 254,
  \<open>kGrowthHack\<close> is 256, and the bucket of a hash is the hash modulo the bucket count.
\<close>

definition Small_kNotFound :: int where
  "Small_kNotFound = 255"

definition Small_kMaxCapacity :: int where
  "Small_kMaxCapacity = 254"

definition kGrowthHack :: int where
  "kGrowthHack = 256"

definition Small_HashToBucket :: "table \<Rightarrow> int \<Rightarrow> int" where
  "Small_HashToBucket t hash = hash mod NumberOfBuckets t"

definition HashToFirstEntry :: "table \<Rightarrow> int \<Rightarrow> int" where
  "HashToFirstEntry t hash = get_bucket t (Small_HashToBucket t hash)"

definition Initialize :: "variant \<Rightarrow> table \<Rightarrow> int \<Rightarrow> table" where
  "Initialize v raw capacity =
     (let num_buckets = capacity sdiv kLoadFactor;
          num_chains = capacity
      in raw\<lparr> NumberOfBuckets := num_buckets, NumberOfElements := 0,
              NumberOfDeletedElements := 0,
              buckets := replicate (nat num_buckets) Small_kNotFound,
              chains := replicate (nat num_chains) Small_kNotFound,
              data := replicate (nat capacity) (replicate (entrysize v) TheHole) \<rparr>)"

text \<open>
  Modelled from the spec: the factory functions \<open>NewSmallOrderedHashSet\<close>,
  \<open>NewSmallOrderedHashMap\<close> and \<open>NewSmallOrderedNameDictionary\<close> hand out a table of the
  requested capacity that \<open>Initialize\<close> has filled in.
\<close>

definition Small_Allocate :: "host \<Rightarrow> variant \<Rightarrow> int \<Rightarrow> table" where
  "Small_Allocate H v capacity =
     Initialize v
       \<lparr> NumberOfBuckets = 0, NumberOfElements = 0, NumberOfDeletedElements = 0,
         NextTable = None, Hash = kNoHashSentinel H, buckets = [], chains = [], data = [],
         removed = (\<lambda>_. 0) \<rparr> capacity"

definition SmallOrderedHashTable_FindEntry ::
  "host \<Rightarrow> isolate \<Rightarrow> table \<Rightarrow> object \<Rightarrow> InternalIndex option" where
  "SmallOrderedHashTable_FindEntry H isolate t key =
     (case GetHash isolate key of
        None \<Rightarrow> Some NotFound
      | Some hash \<Rightarrow>
          FindInChain Small_kNotFound (SameValueZero H) t key (HashToFirstEntry t hash))"

definition SmallOrderedHashTable_HasKey :: "host \<Rightarrow> isolate \<Rightarrow> table \<Rightarrow> object \<Rightarrow> bool option" where
  "SmallOrderedHashTable_HasKey H isolate t key =
     map_option (\<lambda>entry. entry \<noteq> NotFound) (SmallOrderedHashTable_FindEntry H isolate t key)"

definition Small_Rehash_step ::
  "variant \<Rightarrow> isolate \<Rightarrow> table \<Rightarrow> int \<Rightarrow> table \<times> int \<Rightarrow> table \<times> int" where
  "Small_Rehash_step v isolate table old_entry s =
     (case s of (new_table, new_entry) \<Rightarrow>
        let key = KeyAt table old_entry in
        if IsTheHole key then (new_table, new_entry)
        else
          let hash = the (GetHash isolate key);
              bucket = Small_HashToBucket new_table hash;
              chain = get_bucket new_table bucket;
              new_table = set_bucket new_table bucket new_entry;
              new_table = set_chain new_table new_entry chain;
              new_table = copy_entry v table old_entry new_table new_entry
          in (new_table, new_entry + 1))"

definition SmallOrderedHashTable_Rehash :: "host \<Rightarrow> variant \<Rightarrow> isolate \<Rightarrow> table \<Rightarrow> int \<Rightarrow> table" where
  "SmallOrderedHashTable_Rehash H v isolate table new_capacity =
     (case fold (Small_Rehash_step v isolate table) (IterateEntries table)
             (Small_Allocate H v new_capacity, 0) of
        (new_table, new_entry) \<Rightarrow> new_table\<lparr>NumberOfElements := NumberOfElements table\<rparr>)"

definition Small_Derived_Rehash :: "host \<Rightarrow> variant \<Rightarrow> isolate \<Rightarrow> table \<Rightarrow> int \<Rightarrow> table" where
  "Small_Derived_Rehash H v isolate table new_capacity =
     (let new_table = SmallOrderedHashTable_Rehash H v isolate table new_capacity
      in if v = NameDictionaryVariant then new_table\<lparr>Hash := Hash table\<rparr> else new_table)"

text \<open>\<open>Grow\<close> returns an empty handle, here \<open>None\<close>, when the table cannot grow.\<close>

definition SmallOrderedHashTable_Grow :: "host \<Rightarrow> variant \<Rightarrow> isolate \<Rightarrow> table \<Rightarrow> table option" where
  "SmallOrderedHashTable_Grow H v isolate table =
     (let capacity = Capacity table;
          new_capacity = capacity
      in if NumberOfDeletedElements table < drop_bit 1 capacity
         then
           let new_capacity = push_bit 1 capacity;
               new_capacity = (if new_capacity = kGrowthHack then Small_kMaxCapacity else new_capacity)
           in if new_capacity > Small_kMaxCapacity then None
              else Some (Small_Derived_Rehash H v isolate table new_capacity)
         else Some (Small_Derived_Rehash H v isolate table new_capacity))"

text \<open>
  The three \<open>Add\<close> functions of the small form. The outer \<open>option\<close> is \<open>None\<close> when the
  chain walk of \<open>HasKey\<close> does not end; the inner one is the \<open>MaybeHandle\<close>, \<open>None\<close> when
  \<open>Grow\<close> failed.
\<close>

definition SmallOrderedHashSet_Add ::
  "host \<Rightarrow> isolate \<Rightarrow> table \<Rightarrow> object \<Rightarrow> (isolate \<times> table) option option" where
  "SmallOrderedHashSet_Add H isolate table0 key =
     (case SmallOrderedHashTable_HasKey H isolate table0 key of
        None \<Rightarrow> None
      | Some True \<Rightarrow> Some (Some (isolate, table0))
      | Some False \<Rightarrow>
          (case (if UsedCapacity table0 \<ge> Capacity table0
                 then SmallOrderedHashTable_Grow H SetVariant isolate table0
                 else Some table0) of
             None \<Rightarrow> Some None
           | Some raw_table \<Rightarrow>
               (case GetOrCreateHash H isolate key of (hash, isolate) \<Rightarrow>
                let nof = NumberOfElements raw_table;
                    bucket = Small_HashToBucket raw_table hash;
                    previous_entry = HashToFirstEntry raw_table hash;
                    new_entry = nof + NumberOfDeletedElements raw_table;
                    raw_table = set_data raw_table new_entry kKeyIndex key;
                    raw_table = set_bucket raw_table bucket new_entry;
                    raw_table = set_chain raw_table new_entry previous_entry;
                    raw_table = raw_table\<lparr>NumberOfElements := nof + 1\<rparr>
                in Some (Some (isolate, raw_table)))))"

definition SmallOrderedHashMap_Add ::
  "host \<Rightarrow> isolate \<Rightarrow> table \<Rightarrow> object \<Rightarrow> object \<Rightarrow> (isolate \<times> table) option option" where
  "SmallOrderedHashMap_Add H isolate table0 key val =
     (case SmallOrderedHashTable_HasKey H isolate table0 key of
        None \<Rightarrow> None
      | Some True \<Rightarrow> Some (Some (isolate, table0))
      | Some False \<Rightarrow>
          (case (if UsedCapacity table0 \<ge> Capacity table0
                 then SmallOrderedHashTable_Grow H MapVariant isolate table0
                 else Some table0) of
             None \<Rightarrow> Some None
           | Some raw_table \<Rightarrow>
               (case GetOrCreateHash H isolate key of (hash, isolate) \<Rightarrow>
                let nof = NumberOfElements raw_table;
                    bucket = Small_HashToBucket raw_table hash;
                    previous_entry = HashToFirstEntry raw_table hash;
                    new_entry = nof + NumberOfDeletedElements raw_table;
                    raw_table = set_data raw_table new_entry kValueOffset val;
                    raw_table = set_data raw_table new_entry kKeyIndex key;
                    raw_table = set_bucket raw_table bucket new_entry;
                    raw_table = set_chain raw_table new_entry previous_entry;
                    raw_table = raw_table\<lparr>NumberOfElements := nof + 1\<rparr>
                in Some (Some (isolate, raw_table)))))"

text \<open>
  \<open>SmallOrderedNameDictionary::Add\<close> looks for the key in a \<open>DCHECK\<close> only, so it walks no
  chain and always returns.
\<close>

definition SmallOrderedNameDictionary_Add ::
  "host \<Rightarrow> isolate \<Rightarrow> table \<Rightarrow> object \<Rightarrow> object \<Rightarrow> object \<Rightarrow> (isolate \<times> table) option" where
  "SmallOrderedNameDictionary_Add H isolate table0 key val details =
     (case (if UsedCapacity table0 \<ge> Capacity table0
            then SmallOrderedHashTable_Grow H NameDictionaryVariant isolate table0
            else Some table0) of
        None \<Rightarrow> None
      | Some table \<Rightarrow>
          let nof = NumberOfElements table;
              hash = NameHash H key;
              bucket = Small_HashToBucket table hash;
              previous_entry = HashToFirstEntry table hash;
              new_entry = nof + NumberOfDeletedElements table;
              table = set_data table new_entry kValueOffset val;
              table = set_data table new_entry kKeyIndex key;
              table = set_data table new_entry kPropertyDetailsOffset details;
              table = set_bucket table bucket new_entry;
              table = set_chain table new_entry previous_entry;
              table = table\<lparr>NumberOfElements := nof + 1\<rparr>
          in Some (isolate, table))"

section \<open>The handler facade\<close>





section \<open>The iterator\<close>

record OrderedHashTableIterator =
  iterator_table :: addr
  iterator_index :: int

function Transition_removed_loop :: "table \<Rightarrow> int \<Rightarrow> int \<Rightarrow> int \<Rightarrow> int \<Rightarrow> int" where
  "Transition_removed_loop table nod old_index i index =
     (if i < nod
      then (if RemovedIndexAt table i \<ge> old_index then index
            else Transition_removed_loop table nod old_index (i + 1) (index - 1))
      else index)"
  by pat_completeness auto
termination
  by (relation "measure (\<lambda>(table, nod, old_index, i, index). nat (nod - i))") auto

declare Transition_removed_loop.simps [simp del]

text \<open>
  The loop \<open>while (table.IsObsolete())\<close>: it follows forwarding pointers for as long as
  it meets obsolete tables, so on a cyclic chain it does not end (\<open>None\<close>).
\<close>

partial_function (option) Transition_loop ::
  "host \<Rightarrow> table list \<Rightarrow> addr \<Rightarrow> int \<Rightarrow> (addr \<times> int) option" where
  "Transition_loop H hp table index =
     (if IsObsolete (hp ! table)
      then
        let next_table = the (NextTable (hp ! table));
            index =
              (if index > 0
               then
                 let nod = NumberOfDeletedElements (hp ! table) in
                 if nod = kClearedTableSentinel H then 0
                 else Transition_removed_loop (hp ! table) nod index 0 index
               else index)
        in Transition_loop H hp next_table index
      else Some (table, index))"

declare Transition_loop.simps [code]

definition Transition ::
  "host \<Rightarrow> isolate \<Rightarrow> OrderedHashTableIterator \<Rightarrow> OrderedHashTableIterator option" where
  "Transition H isolate this =
     (if \<not> IsObsolete (heap isolate ! iterator_table this) then Some this
      else
        (case Transition_loop H (heap isolate) (iterator_table this) (iterator_index this) of
           None \<Rightarrow> None
         | Some (table, index) \<Rightarrow> Some (this\<lparr>iterator_table := table, iterator_index := index\<rparr>)))"

section \<open>Well-formed hosts and tables\<close>

text \<open>
  What the proofs ask of the constants that the model takes as parameters: the initial
  capacity is a power of two between 2 and \<open>2 ^ 30\<close> that \<open>Allocate\<close> accepts, the
  maximal capacity is at most \<open>2 ^ 29\<close> (so that doubling a capacity does not overflow
  an \<open>int\<close>), the chain-end sentinel of the large form is negative (so it is no entry
  index), and the hole is same-value-zero to nothing but itself.
\<close>

definition host_ok :: "host \<Rightarrow> bool" where
  "host_ok H \<longleftrightarrow>
     (\<exists>k. 1 \<le> k \<and> k \<le> 30 \<and> kInitialCapacity H = 2 ^ k) \<and>
     kInitialCapacity H \<le> MaxCapacity H \<and> MaxCapacity H \<le> 2 ^ 29 \<and>
     kNotFound H < 0 \<and>
     (\<forall>key. SameValueZero H TheHole key \<longrightarrow> key = TheHole)"

text \<open>A host with the values of V8's headers and identity as key equality, for examples.\<close>

definition example_host :: host where
  "example_host =
     \<lparr> kInitialCapacity = 4, kNotFound = - 1, kClearedTableSentinel = - 1,
       MaxCapacity = 26843544, OrderedHashTableMinSize = 512, kNoHashSentinel = 0,
       SameValueZero = (=),
       CreateHash = (\<lambda>key. case key of Smi n \<Rightarrow> n | HeapObject n \<Rightarrow> int n | TheHole \<Rightarrow> 0),
       NameHash = (\<lambda>key. case key of Smi n \<Rightarrow> n | HeapObject n \<Rightarrow> int n | TheHole \<Rightarrow> 0) \<rparr>"

definition empty_isolate :: isolate where
  "empty_isolate = \<lparr> heap = [], hashes = (\<lambda>_. None) \<rparr>"

text \<open>
  The capacity \<open>Allocate\<close> computes for a request that does not overflow, and the table
  it then builds.
\<close>

definition rounded_capacity :: "host \<Rightarrow> int \<Rightarrow> int" where
  "rounded_capacity H capacity = 2 ^ floorlog 2 (nat (max (kInitialCapacity H) capacity) - 1)"

definition fresh_table :: "host \<Rightarrow> variant \<Rightarrow> int \<Rightarrow> table" where
  "fresh_table H v capacity =
     \<lparr> NumberOfBuckets = capacity div 2, NumberOfElements = 0, NumberOfDeletedElements = 0,
       NextTable = None, Hash = 0,
       buckets = replicate (nat (capacity div 2)) (kNotFound H),
       chains = replicate (nat capacity) (kNotFound H),
       data = replicate (nat capacity) (replicate (entrysize v) TheHole),
       removed = (\<lambda>_. 0) \<rparr>"

subsection \<open>The iterator's view of a chain of obsolete tables\<close>

text \<open>
  \<open>obsolete_chain hp a path b\<close>: starting at \<open>a\<close> and following forwarding pointers, the
  obsolete tables met are \<open>path\<close>, in this order, and the first table that is not obsolete
  is \<open>b\<close>.
\<close>

fun obsolete_chain :: "table list \<Rightarrow> addr \<Rightarrow> addr list \<Rightarrow> addr \<Rightarrow> bool" where
  "obsolete_chain hp a [] b = (a = b \<and> \<not> IsObsolete (hp ! a))"
| "obsolete_chain hp a (p # ps) b =
     (p = a \<and> IsObsolete (hp ! a) \<and> obsolete_chain hp (the (NextTable (hp ! a))) ps b)"

text \<open>The removed indices a table has recorded: one for each deleted element.\<close>

definition removed_indices :: "table \<Rightarrow> int list" where
  "removed_indices t =
     map (\<lambda>i. RemovedIndexAt t (int i)) [0 ..< nat (NumberOfDeletedElements t)]"

definition removed_log_ok :: "table \<Rightarrow> bool" where
  "removed_log_ok t \<longleftrightarrow>
     sorted_wrt (<) (removed_indices t) \<and> (\<forall>r \<in> set (removed_indices t). 0 \<le> r)"

text \<open>
  The index adjustment for one obsolete predecessor, in the words of the specification:
  0 for a cleared table; otherwise one less for each recorded removed index below the
  index on entry, scanning in order and stopping at the first one that is not below it.
\<close>

definition adjusted_index :: "host \<Rightarrow> table \<Rightarrow> int \<Rightarrow> int" where
  "adjusted_index H predecessor index =
     (if NumberOfDeletedElements predecessor = kClearedTableSentinel H then 0
      else index - int (length (takeWhile (\<lambda>r. r < index) (removed_indices predecessor))))"

subsection \<open>Well-formed tables\<close>

text \<open>
  The rows of the slots in use, the keys in them, and the live rows: those whose key is
  not the hole. The live rows in slot order are the table's content in iteration order.
\<close>

definition used_rows :: "table \<Rightarrow> object list list" where
  "used_rows t = take (nat (UsedCapacity t)) (data t)"

definition slot_keys :: "table \<Rightarrow> object list" where
  "slot_keys t = map (\<lambda>row. row ! kKeyIndex) (used_rows t)"

definition live_entries :: "table \<Rightarrow> object list list" where
  "live_entries t = filter (\<lambda>row. \<not> IsTheHole (row ! kKeyIndex)) (used_rows t)"

definition live_keys :: "table \<Rightarrow> object list" where
  "live_keys t = map (\<lambda>row. row ! kKeyIndex) (live_entries t)"

text \<open>The slot indices of the tombstones, in ascending order.\<close>

definition hole_slots :: "table \<Rightarrow> int list" where
  "hole_slots t = map int (filter (\<lambda>e. IsTheHole (KeyAt t (int e))) [0 ..< nat (UsedCapacity t)])"

text \<open>A key is in the table when a live slot holds a key that is same-value-zero to it.\<close>

definition contains_key :: "host \<Rightarrow> table \<Rightarrow> object \<Rightarrow> bool" where
  "contains_key H t key \<longleftrightarrow> (\<exists>k \<in> set (live_keys t). SameValueZero H k key)"

text \<open>
  Sizes: the three arrays have the lengths the bucket count gives, every row has the
  variant's number of payload slots, and the counters are within the capacity.
\<close>

definition table_sizes_ok :: "variant \<Rightarrow> table \<Rightarrow> bool" where
  "table_sizes_ok v t \<longleftrightarrow>
     0 \<le> NumberOfBuckets t \<and>
     length (buckets t) = nat (NumberOfBuckets t) \<and>
     length (chains t) = nat (Capacity t) \<and>
     length (data t) = nat (Capacity t) \<and>
     (\<forall>row \<in> set (data t). length row = entrysize v) \<and>
     0 \<le> NumberOfElements t \<and> 0 \<le> NumberOfDeletedElements t \<and>
     UsedCapacity t \<le> Capacity t"

text \<open>Counters: the deleted-elements count is the number of tombstones in use.\<close>

definition table_counts_ok :: "table \<Rightarrow> bool" where
  "table_counts_ok t \<longleftrightarrow>
     NumberOfDeletedElements t = int (length (filter IsTheHole (slot_keys t)))"

text \<open>
  The entries on the chain that starts at an entry: the walk of \<open>FindInChain\<close>, made
  total by stopping at anything that is no slot index or that does not point backwards.
\<close>

function chain_of :: "int list \<Rightarrow> int \<Rightarrow> int list" where
  "chain_of cs e =
     (if 0 \<le> e \<and> nat e < length cs
      then e # (if cs ! nat e < e then chain_of cs (cs ! nat e) else [])
      else [])"
  by pat_completeness auto
termination
  by (relation "measure (\<lambda>(cs, e). nat (e + 1))") auto

declare chain_of.simps [simp del]

text \<open>
  Links: with \<open>n\<close> slots in use, every bucket head is the sentinel or a slot in use, and
  every chain link of a slot in use is the sentinel or an earlier slot.
\<close>

definition links_ok :: "int \<Rightarrow> nat \<Rightarrow> int list \<Rightarrow> int list \<Rightarrow> bool" where
  "links_ok not_found n bs cs \<longleftrightarrow>
     (\<forall>b \<in> set bs. b = not_found \<or> (0 \<le> b \<and> b < int n)) \<and>
     (\<forall>e < n. cs ! e = not_found \<or> (0 \<le> cs ! e \<and> cs ! e < int e))"

text \<open>
  Reachability: every live key has a hash, and its slot is on the chain of the bucket
  of that hash.
\<close>

definition reach_ok ::
  "(object \<Rightarrow> int option) \<Rightarrow> (int \<Rightarrow> int) \<Rightarrow> nat \<Rightarrow> int list \<Rightarrow> int list \<Rightarrow> object list list \<Rightarrow> bool" where
  "reach_ok hs bucket_of n bs cs ds \<longleftrightarrow>
     (\<forall>e < n. \<not> IsTheHole (ds ! e ! kKeyIndex) \<longrightarrow>
        (\<exists>h. hs (ds ! e ! kKeyIndex) = Some h \<and>
             int e \<in> set (chain_of cs (bs ! nat (bucket_of h)))))"

definition wf_large :: "host \<Rightarrow> variant \<Rightarrow> isolate \<Rightarrow> table \<Rightarrow> bool" where
  "wf_large H v isolate t \<longleftrightarrow>
     table_sizes_ok v t \<and> table_counts_ok t \<and> Capacity t \<le> MaxCapacity H \<and>
     links_ok (kNotFound H) (nat (UsedCapacity t)) (buckets t) (chains t) \<and>
     reach_ok (hashes isolate) (HashToBucket t) (nat (UsedCapacity t)) (buckets t) (chains t) (data t)"

definition wf_small :: "variant \<Rightarrow> isolate \<Rightarrow> table \<Rightarrow> bool" where
  "wf_small v isolate t \<longleftrightarrow>
     table_sizes_ok v t \<and> table_counts_ok t \<and>
     0 < NumberOfBuckets t \<and> Capacity t \<le> Small_kMaxCapacity \<and>
     links_ok Small_kNotFound (nat (UsedCapacity t)) (buckets t) (chains t) \<and>
     reach_ok (hashes isolate) (Small_HashToBucket t) (nat (UsedCapacity t)) (buckets t) (chains t) (data t)"

text \<open>
  The hashes of the isolate agree with the key equality: keys that are same-value-zero
  have the same hash, and an object without a hash is same-value-zero to itself only
  (identity hashes are created on demand for objects that compare by identity).
\<close>

definition hash_ok :: "host \<Rightarrow> isolate \<Rightarrow> bool" where
  "hash_ok H isolate \<longleftrightarrow>
     (\<forall>a b. SameValueZero H a b \<longrightarrow> hashes isolate a = hashes isolate b) \<and>
     (\<forall>a b. SameValueZero H a b \<longrightarrow> hashes isolate a = None \<longrightarrow> a = b)"


text \<open>The result of a chain walk, from the first entry of the chain that matches, if any.\<close>

definition find_result :: "int option \<Rightarrow> InternalIndex" where
  "find_result r = (case r of None \<Rightarrow> NotFound | Some e \<Rightarrow> Entry e)"

text \<open>
  What the closing lines of each \<open>Add\<close> do to the table: the row goes into the first
  unused slot, the slot is linked in front of the chain of the bucket, and the element
  count goes up by one.
\<close>

definition insert_entry :: "table \<Rightarrow> int \<Rightarrow> object list \<Rightarrow> table" where
  "insert_entry t bucket row =
     t\<lparr> data := (data t)[nat (UsedCapacity t) := row],
        chains := (chains t)[nat (UsedCapacity t) := get_bucket t bucket],
        buckets := (buckets t)[nat bucket := UsedCapacity t],
        NumberOfElements := NumberOfElements t + 1 \<rparr>"

text \<open>
  The state of the loop of \<open>Rehash\<close> after the first \<open>i\<close> slots of the source: the
  source differs from what it was in its removed-indices log only, which holds the slot
  indices of the tombstones met so far; the new table holds the live rows met so far in
  its first slots, and nothing else of it has changed but buckets and chain links.
\<close>

definition rehash_inv :: "table \<Rightarrow> table \<Rightarrow> nat \<Rightarrow> table \<times> table \<times> int \<times> int \<Rightarrow> bool" where
  "rehash_inv src nt0 i s \<longleftrightarrow>
     (case s of (table, new_table, new_entry, removed_holes_index) \<Rightarrow>
        table\<lparr>removed := removed src\<rparr> = src \<and>
        new_entry = int (length (filter (\<lambda>row. \<not> IsTheHole (row ! kKeyIndex)) (take i (data src)))) \<and>
        removed_holes_index = int (length (filter (\<lambda>e. IsTheHole (KeyAt src (int e))) [0 ..< i])) \<and>
        map (\<lambda>j. removed table (int j)) [0 ..< nat removed_holes_index] =
          map int (filter (\<lambda>e. IsTheHole (KeyAt src (int e))) [0 ..< i]) \<and>
        data new_table =
          filter (\<lambda>row. \<not> IsTheHole (row ! kKeyIndex)) (take i (data src)) @
          drop (nat new_entry) (data nt0) \<and>
        new_table\<lparr>data := data nt0, buckets := buckets nt0, chains := chains nt0\<rparr> = nt0 \<and>
        length (buckets new_table) = length (buckets nt0) \<and>
        length (chains new_table) = length (chains nt0))"

text \<open>The table \<open>Derived::Allocate\<close> builds: the name dictionary also gets its hash field.\<close>

definition derived_fresh_table :: "host \<Rightarrow> variant \<Rightarrow> int \<Rightarrow> table" where
  "derived_fresh_table H v capacity =
     (if v = NameDictionaryVariant
      then (fresh_table H v capacity)\<lparr>Hash := kNoHashSentinel H\<rparr>
      else fresh_table H v capacity)"

text \<open>
  The state of the loop of the small form's \<open>Rehash\<close> after the first \<open>i\<close> slots of the
  source: the new table holds the live rows met so far in its first slots, and nothing
  else of it has changed but buckets and chain links.
\<close>

definition small_rehash_inv :: "table \<Rightarrow> table \<Rightarrow> nat \<Rightarrow> table \<times> int \<Rightarrow> bool" where
  "small_rehash_inv src nt0 i s \<longleftrightarrow>
     (case s of (new_table, new_entry) \<Rightarrow>
        new_entry = int (length (filter (\<lambda>row. \<not> IsTheHole (row ! kKeyIndex)) (take i (data src)))) \<and>
        data new_table =
          filter (\<lambda>row. \<not> IsTheHole (row ! kKeyIndex)) (take i (data src)) @
          drop (nat new_entry) (data nt0) \<and>
        new_table\<lparr>data := data nt0, buckets := buckets nt0, chains := chains nt0\<rparr> = nt0 \<and>
        length (buckets new_table) = length (buckets nt0) \<and>
        length (chains new_table) = length (chains nt0))"

text \<open>
  What it is to rehash the table at address \<open>a\<close> of \<open>isolate\<close> at the capacity \<open>c\<close>, with the
  result \<open>r\<close>. When the capacity, rounded up as \<open>Allocate\<close> does, is above \<open>MaxCapacity\<close>,
  the result is the range error. Otherwise it is a new table at the first free address,
  and no other table than the source changes. The new table has the rounded capacity, the
  live rows of the source in the same order, the element count of the source, no
  tombstone and no forwarding pointer, and a name dictionary keeps its hash; its buckets
  and chains reach every key, so that it is well formed when the source is. The source
  now records the slot indices of its tombstones as removed indices, and forwards to the
  new table unless its bucket count is zero; nothing else of it changes.
\<close>

definition rehashed_at ::
  "host \<Rightarrow> variant \<Rightarrow> isolate \<Rightarrow> addr \<Rightarrow> int \<Rightarrow> error + (isolate \<times> addr) \<Rightarrow> bool" where
  "rehashed_at H v isolate a c r \<longleftrightarrow>
     (if rounded_capacity H c > MaxCapacity H then r = Inl RangeError_kTooManyProperties
      else \<exists>isolate1.
        r = Inr (isolate1, length (heap isolate)) \<and>
        hashes isolate1 = hashes isolate \<and>
        length (heap isolate1) = Suc (length (heap isolate)) \<and>
        (\<forall>b < length (heap isolate). b \<noteq> a \<longrightarrow> heap isolate1 ! b = heap isolate ! b) \<and>
        Capacity (heap isolate1 ! length (heap isolate)) = rounded_capacity H c \<and>
        live_entries (heap isolate1 ! length (heap isolate)) = live_entries (heap isolate ! a) \<and>
        NumberOfElements (heap isolate1 ! length (heap isolate)) =
          NumberOfElements (heap isolate ! a) \<and>
        NumberOfDeletedElements (heap isolate1 ! length (heap isolate)) = 0 \<and>
        NextTable (heap isolate1 ! length (heap isolate)) = None \<and>
        (v = NameDictionaryVariant \<longrightarrow>
           Hash (heap isolate1 ! length (heap isolate)) = Hash (heap isolate ! a)) \<and>
        table_sizes_ok v (heap isolate1 ! length (heap isolate)) \<and>
        table_counts_ok (heap isolate1 ! length (heap isolate)) \<and>
        (wf_large H v isolate (heap isolate ! a) \<longrightarrow>
           wf_large H v isolate1 (heap isolate1 ! length (heap isolate))) \<and>
        removed_indices (heap isolate1 ! a) = hole_slots (heap isolate ! a) \<and>
        heap isolate1 ! a =
          (heap isolate ! a)
            \<lparr>removed := removed (heap isolate1 ! a),
             NextTable := (if NumberOfBuckets (heap isolate ! a) \<noteq> 0
                           then Some (length (heap isolate))
                           else NextTable (heap isolate ! a))\<rparr>)"


text \<open>
  What claim C2 says of an \<open>Add\<close> that inserts: \<open>before\<close> is the table the entry goes
  into, as it is when the insertion starts (after a rehash, if there was one), and
  \<open>after\<close> is the same table when \<open>Add\<close> returns. The key is in the slot whose index
  was the used capacity, which is a slot of the table; the used capacity has grown by one
  and the tombstone count has not changed; and every other slot holds what it held.
\<close>

definition added_at_used_capacity :: "table \<Rightarrow> table \<Rightarrow> object \<Rightarrow> bool" where
  "added_at_used_capacity before after key \<longleftrightarrow>
     0 \<le> UsedCapacity before \<and> nat (UsedCapacity before) < length (data before) \<and>
     KeyAt after (UsedCapacity before) = key \<and>
     UsedCapacity after = UsedCapacity before + 1 \<and>
     NumberOfDeletedElements after = NumberOfDeletedElements before \<and>
     length (data after) = length (data before) \<and>
     (\<forall>e < length (data before). e \<noteq> nat (UsedCapacity before) \<longrightarrow>
        data after ! e = data before ! e)"


subsection \<open>Example states\<close>

text \<open>
  A heap for the iterator: table 0 was rehashed into table 1 after the entries at slots
  0, 2 and 7 had been deleted, table 1 was rehashed into table 2 after the entry at its
  slot 1 had been deleted, and table 2 is current.
\<close>

definition example_chain_heap :: "table list" where
  "example_chain_heap =
     [ (fresh_table example_host SetVariant 16)
         \<lparr>NextTable := Some 1, NumberOfDeletedElements := 3,
          removed := (\<lambda>i. if i = 0 then 0 else if i = 1 then 2 else 7)\<rparr>,
       (fresh_table example_host SetVariant 16)
         \<lparr>NextTable := Some 2, NumberOfDeletedElements := 1, removed := (\<lambda>i. 1)\<rparr>,
       fresh_table example_host SetVariant 16 ]"

text \<open>
  A large Set table of capacity 4 after \<open>add 1\<close>, \<open>add 3\<close>, \<open>add 2\<close> and
  \<open>delete 3\<close>, with a small integer's hash being its value: slot 1 is a tombstone that is
  still on the chain of bucket 1.
\<close>

definition example_set_table :: table where
  "example_set_table =
     \<lparr> NumberOfBuckets = 2, NumberOfElements = 2, NumberOfDeletedElements = 1,
       NextTable = None, Hash = 0,
       buckets = [2, 1], chains = [- 1, 0, - 1, - 1],
       data = [[Smi 1], [TheHole], [Smi 2], [TheHole]],
       removed = (\<lambda>_. 0) \<rparr>"

definition example_isolate :: "table list \<Rightarrow> isolate" where
  "example_isolate hp =
     \<lparr> heap = hp, hashes = (\<lambda>key. case key of Smi n \<Rightarrow> Some n | _ \<Rightarrow> None) \<rparr>"

text \<open>
  The same content as \<open>example_set_table\<close> in a large Map table with the values 10 and
  20, and in small Set and Map tables, where the byte 255 ends a chain.
\<close>

definition example_map_table :: table where
  "example_map_table =
     example_set_table
       \<lparr>data := [[Smi 1, Smi 10], [TheHole, TheHole], [Smi 2, Smi 20], [TheHole, TheHole]]\<rparr>"

definition example_small_set_table :: table where
  "example_small_set_table = example_set_table\<lparr>chains := [255, 0, 255, 255]\<rparr>"

definition example_small_map_table :: table where
  "example_small_map_table = example_map_table\<lparr>chains := [255, 0, 255, 255]\<rparr>"

text \<open>The same content again in a large and in a small NameDictionary table.\<close>

definition example_dict_table :: table where
  "example_dict_table =
     example_set_table
       \<lparr>data := [[Smi 1, Smi 10, Smi 0], [TheHole, TheHole, TheHole],
                [Smi 2, Smi 20, Smi 0], [TheHole, TheHole, TheHole]]\<rparr>"

definition example_small_dict_table :: table where
  "example_small_dict_table = example_dict_table\<lparr>chains := [255, 0, 255, 255]\<rparr>"

text \<open>
  A large Set table of capacity 4 that is full: three keys and a tombstone, which was on
  the chain of bucket 1.
\<close>

definition example_full_table :: table where
  "example_full_table =
     \<lparr> NumberOfBuckets = 2, NumberOfElements = 3, NumberOfDeletedElements = 1,
       NextTable = None, Hash = 0,
       buckets = [2, 3], chains = [- 1, 0, - 1, 1],
       data = [[Smi 1], [TheHole], [Smi 2], [Smi 3]],
       removed = (\<lambda>_. 0) \<rparr>"



section \<open>Properties\<close>

subsection \<open>Allocation\<close>

lemma unat_word_of_int_32:
  "0 \<le> n \<Longrightarrow> n < 2 ^ 32 \<Longrightarrow> unat (word_of_int n :: 32 word) = nat n"
  by (simp add: unat_eq_nat_uint uint_word_of_int take_bit_eq_mod)

lemma sint_push_bit_1:
  assumes "k < 31"
  shows "sint (push_bit k 1 :: 32 word) = 2 ^ k"
proof -
  have "(2::int) ^ k < 2 ^ 31"
    using assms by (intro power_strict_increasing) auto
  moreover have "- (2 ^ 31) \<le> (2::int) ^ k"
    by (smt (verit) zero_le_power)
  ultimately have s: "signed_take_bit 31 ((2::int) ^ k) = 2 ^ k"
    by (intro signed_take_bit_int_eq_self) auto
  have "sint (push_bit k 1 :: 32 word) = sint (word_of_int (2 ^ k) :: 32 word)"
    by (simp add: word_of_int_2p)
  also have "\<dots> = signed_take_bit (LENGTH(32) - 1) (2 ^ k)"
    by (rule sint_sbintrunc')
  also have "\<dots> = 2 ^ k"
    using s by simp
  finally show ?thesis .
qed

lemma RoundUpToPowerOfTwo32_in_range:
  assumes "0 < n" "n \<le> 2 ^ 30"
  shows "sint (RoundUpToPowerOfTwo32 (word_of_int n)) = 2 ^ floorlog 2 (nat n - 1)"
proof -
  have u: "unat (word_of_int n :: 32 word) = nat n"
    using assms by (intro unat_word_of_int_32) auto
  have "nat n - 1 < 2 ^ 30"
    using assms by (simp add: nat_less_iff)
  then have "floorlog 2 (nat n - 1) \<le> 30"
    by (simp add: floorlog_le_iff)
  then show ?thesis
    unfolding RoundUpToPowerOfTwo32_def u by (intro sint_push_bit_1) simp
qed

lemma power_floorlog_ge: "n \<le> 2 ^ floorlog 2 (n - 1)" for n :: nat
proof (cases "n \<le> 1")
  case True
  then show ?thesis by (cases n) auto
next
  case False
  then have "n - 1 < 2 ^ floorlog 2 (n - 1)"
    using floorlog_bounds[of "n - 1" 2] by simp
  then show ?thesis by simp
qed

lemma power_floorlog_least:
  assumes "0 < floorlog 2 (n - 1)"
  shows "2 ^ (floorlog 2 (n - 1) - 1) < n"
proof -
  have pos: "0 < n - 1"
    using assms floorlog_eq_zero_iff[of 2 "n - 1"] by auto
  then have "2 ^ (floorlog 2 (n - 1) - 1) \<le> n - 1"
    using floorlog_bounds[of "n - 1" 2] by simp
  then show ?thesis
    using pos by simp
qed

lemma host_ok_kInitialCapacity:
  assumes "host_ok H"
  shows "2 \<le> kInitialCapacity H" "kInitialCapacity H \<le> 2 ^ 30"
proof -
  obtain k where k: "1 \<le> k" "k \<le> 30" "kInitialCapacity H = 2 ^ k"
    using assms unfolding host_ok_def by blast
  have "(2::int) ^ 1 \<le> 2 ^ k"
    using k(1) by (intro power_increasing) auto
  then show "2 \<le> kInitialCapacity H"
    using k(3) by simp
  have "(2::int) ^ k \<le> 2 ^ 30"
    using k(2) by (intro power_increasing) auto
  then show "kInitialCapacity H \<le> 2 ^ 30"
    using k(3) by simp
qed

lemma Allocate_in_range:
  assumes "host_ok H" "capacity \<le> 2 ^ 30"
  shows "Allocate H v isolate capacity =
           (if rounded_capacity H capacity > MaxCapacity H then Inl RangeError_kTooManyProperties
            else Inr (isolate\<lparr>heap := heap isolate @ [fresh_table H v (rounded_capacity H capacity)]\<rparr>,
                      length (heap isolate)))"
proof -
  let ?m = "max (kInitialCapacity H) capacity"
  have m: "0 < ?m" "?m \<le> 2 ^ 30"
    using host_ok_kInitialCapacity[OF assms(1)] assms(2) by auto
  have r: "sint (RoundUpToPowerOfTwo32 (word_of_int ?m)) = rounded_capacity H capacity"
    unfolding rounded_capacity_def by (rule RoundUpToPowerOfTwo32_in_range[OF m])
  have nonneg: "0 \<le> rounded_capacity H capacity"
    unfolding rounded_capacity_def by simp
  then have d: "rounded_capacity H capacity sdiv 2 = rounded_capacity H capacity div 2"
    by (simp add: signed_divide_int_def sgn_if)
  show ?thesis
    unfolding Allocate_def r Let_def
    by (simp add: NewFixedArrayWithMap_def fresh_table_def kLoadFactor_def d)
qed

lemma rounded_capacity_kInitialCapacity:
  assumes "host_ok H"
  shows "rounded_capacity H (kInitialCapacity H) = kInitialCapacity H"
proof -
  obtain k where k: "1 \<le> k" "k \<le> 30" "kInitialCapacity H = 2 ^ k"
    using assms unfolding host_ok_def by blast
  have n: "nat ((2::int) ^ k) = 2 ^ k"
    by (simp add: nat_power_eq)
  have "floorlog 2 ((2::nat) ^ k - 1) = k"
  proof (rule antisym)
    have "(2::nat) ^ k - 1 < 2 ^ k" by simp
    then show "floorlog 2 ((2::nat) ^ k - 1) \<le> k"
      by (simp add: floorlog_le_iff)
    have "(2::nat) ^ (k - 1) \<le> 2 ^ k - 1"
    proof -
      have "(2::nat) ^ k = 2 * 2 ^ (k - 1)"
        using k(1) by (cases k) auto
      moreover have "(1::nat) \<le> 2 ^ (k - 1)" by simp
      ultimately show ?thesis by linarith
    qed
    then show "k \<le> floorlog 2 ((2::nat) ^ k - 1)"
      by (intro floorlog_geI) auto
  qed
  then show ?thesis
    unfolding rounded_capacity_def k(3) by (simp add: n)
qed

lemma rounded_capacity_bounds:
  "max (kInitialCapacity H) capacity \<le> rounded_capacity H capacity"
  "\<exists>k. rounded_capacity H capacity = 2 ^ k \<and>
       (0 < k \<longrightarrow> 2 ^ (k - 1) < max 1 (max (kInitialCapacity H) capacity))"
proof -
  let ?m = "max (kInitialCapacity H) capacity"
  have "nat ?m \<le> 2 ^ floorlog 2 (nat ?m - 1)"
    by (rule power_floorlog_ge)
  then have "?m \<le> int (2 ^ floorlog 2 (nat ?m - 1))"
    by linarith
  then show "?m \<le> rounded_capacity H capacity"
    unfolding rounded_capacity_def by simp
  have "0 < floorlog 2 (nat ?m - 1) \<longrightarrow>
          (2::int) ^ (floorlog 2 (nat ?m - 1) - 1) < max 1 ?m"
  proof
    assume "0 < floorlog 2 (nat ?m - 1)"
    then have "(2::nat) ^ (floorlog 2 (nat ?m - 1) - 1) < nat ?m"
      by (rule power_floorlog_least)
    then have "int (2 ^ (floorlog 2 (nat ?m - 1) - 1)) < ?m"
      by linarith
    then show "(2::int) ^ (floorlog 2 (nat ?m - 1) - 1) < max 1 ?m"
      by (simp add: less_max_iff_disj)
  qed
  then show "\<exists>k. rounded_capacity H capacity = 2 ^ k \<and>
       (0 < k \<longrightarrow> 2 ^ (k - 1) < max 1 ?m)"
    unfolding rounded_capacity_def
    by (intro exI[of _ "floorlog 2 (nat ?m - 1)"] conjI refl)
qed

text \<open>
  For requests up to \<open>2 ^ 30\<close> the large-form \<open>Allocate\<close> does what its contract says:
  the capacity is the least power of two that is at least the request and
  \<open>kInitialCapacity\<close>; the call fails with a range error exactly when this capacity
  exceeds \<open>MaxCapacity\<close>; otherwise the new table has half as many buckets as slots, every
  bucket at \<open>kNotFound\<close>, and the three counters at zero.
\<close>

lemma Allocate_contract_in_range:
  assumes "host_ok H" "capacity \<le> 2 ^ 30"
  shows "(Allocate H v isolate capacity = Inl RangeError_kTooManyProperties \<longleftrightarrow>
            rounded_capacity H capacity > MaxCapacity H) \<and>
         (rounded_capacity H capacity \<le> MaxCapacity H \<longrightarrow>
            (\<exists>isolate' a. Allocate H v isolate capacity = Inr (isolate', a) \<and>
               Capacity (heap isolate' ! a) = rounded_capacity H capacity \<and>
               NumberOfBuckets (heap isolate' ! a) = rounded_capacity H capacity div 2 \<and>
               buckets (heap isolate' ! a) =
                 replicate (nat (NumberOfBuckets (heap isolate' ! a))) (kNotFound H) \<and>
               NumberOfElements (heap isolate' ! a) = 0 \<and>
               NumberOfDeletedElements (heap isolate' ! a) = 0 \<and>
               NextTable (heap isolate' ! a) = None))"
proof -
  obtain k where k: "rounded_capacity H capacity = 2 ^ k"
      "0 < k \<longrightarrow> 2 ^ (k - 1) < max 1 (max (kInitialCapacity H) capacity)"
    using rounded_capacity_bounds(2) by blast
  have "2 \<le> rounded_capacity H capacity"
    using rounded_capacity_bounds(1)[of H capacity] host_ok_kInitialCapacity(1)[OF assms(1)]
    by linarith
  then have "0 < k"
    unfolding k(1) by (cases k) auto
  then have "rounded_capacity H capacity = 2 * 2 ^ (k - 1)"
    unfolding k(1) by (cases k) auto
  then have even: "rounded_capacity H capacity div 2 * 2 = rounded_capacity H capacity"
    by simp
  show ?thesis
    unfolding Allocate_in_range[OF assms]
    by (simp add: fresh_table_def Capacity_def kLoadFactor_def even)
qed

text \<open>
  Claim C9, at a request above \<open>2 ^ 30\<close>: the rounded capacity is \<open>2 ^ 31\<close>, which
  exceeds every \<open>MaxCapacity\<close>, yet \<open>Allocate\<close> raises no range error. The unsigned
  result of \<open>RoundUpToPowerOfTwo32\<close> is assigned to the \<open>int\<close> \<open>capacity\<close> and wraps to
  \<open>- 2 ^ 31\<close>, so the test \<open>capacity > MaxCapacity()\<close> is false and the function goes on
  to allocate with a negative bucket count.
\<close>

theorem Allocate_overflow_no_range_error:
  "\<exists>isolate' a.
     Allocate example_host SetVariant empty_isolate (2 ^ 30 + 1) = Inr (isolate', a) \<and>
     NumberOfBuckets (heap isolate' ! a) = - (2 ^ 30)"
  by (simp add: Allocate_def example_host_def empty_isolate_def RoundUpToPowerOfTwo32_def
      compute_floorlog NewFixedArrayWithMap_def kLoadFactor_def signed_divide_int_def)

subsection \<open>EnsureCapacityForAdding and Clear\<close>

lemma EnsureCapacityForAdding_unfold:
  "EnsureCapacityForAdding H v isolate a =
     (if NumberOfElements (heap isolate ! a) + NumberOfDeletedElements (heap isolate ! a)
           < Capacity (heap isolate ! a)
      then Inr (isolate, a)
      else if Capacity (heap isolate ! a) = 0
      then Derived_Rehash H v isolate a (kInitialCapacity H)
      else if NumberOfDeletedElements (heap isolate ! a) \<ge> Capacity (heap isolate ! a) div 2
      then Derived_Rehash H v isolate a (Capacity (heap isolate ! a))
      else Derived_Rehash H v isolate a (2 * Capacity (heap isolate ! a)))"
  by (simp add: EnsureCapacityForAdding_def Let_def drop_bit_eq_div push_bit_eq_mult mult.commute)

text \<open>
  Claim C8: \<open>Clear\<close> returns a fresh table of \<open>kInitialCapacity\<close> with no elements. It
  writes the forwarding pointer and the cleared-table sentinel into the old table exactly
  when the old table has a bucket count other than zero; the canonical empty table, which
  has none, stays as it is, and so does every other table.
\<close>

theorem Clear_fresh_table_and_old_table:
  assumes "host_ok H" "a < length (heap isolate)" "0 \<le> NumberOfBuckets (heap isolate ! a)"
  shows "\<exists>isolate'.
           Clear H v isolate a = Inr (isolate', length (heap isolate)) \<and>
           length (heap isolate') = length (heap isolate) + 1 \<and>
           hashes isolate' = hashes isolate \<and>
           heap isolate' ! length (heap isolate) = fresh_table H v (kInitialCapacity H) \<and>
           Capacity (heap isolate' ! length (heap isolate)) = kInitialCapacity H \<and>
           NumberOfElements (heap isolate' ! length (heap isolate)) = 0 \<and>
           heap isolate' ! a =
             (if NumberOfBuckets (heap isolate ! a) \<noteq> 0
              then (heap isolate ! a)
                     \<lparr>NextTable := Some (length (heap isolate)),
                      NumberOfDeletedElements := kClearedTableSentinel H\<rparr>
              else heap isolate ! a) \<and>
           (\<forall>b < length (heap isolate). b \<noteq> a \<longrightarrow> heap isolate' ! b = heap isolate ! b)"
proof -
  have le: "kInitialCapacity H \<le> 2 ^ 30"
    by (rule host_ok_kInitialCapacity(2)[OF assms(1)])
  have r: "rounded_capacity H (kInitialCapacity H) = kInitialCapacity H"
    by (rule rounded_capacity_kInitialCapacity[OF assms(1)])
  have m: "\<not> kInitialCapacity H > MaxCapacity H"
    using assms(1) unfolding host_ok_def by auto
  have alloc: "Allocate H v isolate (kInitialCapacity H) =
      Inr (isolate\<lparr>heap := heap isolate @ [fresh_table H v (kInitialCapacity H)]\<rparr>,
           length (heap isolate))"
    unfolding Allocate_in_range[OF assms(1) le] r using m by simp
  obtain k where k: "1 \<le> k" "kInitialCapacity H = 2 ^ k"
    using assms(1) unfolding host_ok_def by blast
  have "kInitialCapacity H = 2 * 2 ^ (k - 1)"
    unfolding k(2) using k(1) by (cases k) auto
  then have cap: "Capacity (fresh_table H v (kInitialCapacity H)) = kInitialCapacity H"
    by (simp add: Capacity_def fresh_table_def kLoadFactor_def)
  have nof: "NumberOfElements (fresh_table H v (kInitialCapacity H)) = 0"
    by (simp add: fresh_table_def)
  show ?thesis
    unfolding Clear_def alloc using assms(2,3) cap nof
    by (auto simp: Let_def nth_append nth_list_update)
qed

theorem Clear_fresh_table_and_old_table_witness:
  "host_ok example_host \<and>
   (0::nat) < length (heap (empty_isolate\<lparr>heap := [fresh_table example_host SetVariant 4]\<rparr>)) \<and>
   (\<exists>isolate'.
      Clear example_host SetVariant
        (empty_isolate\<lparr>heap := [fresh_table example_host SetVariant 4]\<rparr>) 0 = Inr (isolate', 1) \<and>
      NextTable (heap isolate' ! 0) = Some 1 \<and>
      NumberOfDeletedElements (heap isolate' ! 0) = - 1 \<and>
      NumberOfElements (heap isolate' ! 1) = 0)"
proof -
  have h: "host_ok example_host"
    unfolding host_ok_def example_host_def by (auto intro: exI[of _ 2])
  have l: "(0::nat) < length (heap (empty_isolate\<lparr>heap := [fresh_table example_host SetVariant 4]\<rparr>))"
    by simp
  have b: "0 \<le> NumberOfBuckets
      (heap (empty_isolate\<lparr>heap := [fresh_table example_host SetVariant 4]\<rparr>) ! 0)"
    by (simp add: fresh_table_def)
  show ?thesis
    using h l Clear_fresh_table_and_old_table[OF h l b, of SetVariant]
    by (auto simp: fresh_table_def example_host_def)
qed

subsection \<open>Grow of the small form\<close>

lemma SmallOrderedHashTable_Grow_unfold:
  "SmallOrderedHashTable_Grow H v isolate table =
     (if NumberOfDeletedElements table \<ge> Capacity table div 2
      then Some (Small_Derived_Rehash H v isolate table (Capacity table))
      else if (if 2 * Capacity table = 256 then 254 else 2 * Capacity table) > 254
      then None
      else Some (Small_Derived_Rehash H v isolate table
                  (if 2 * Capacity table = 256 then 254 else 2 * Capacity table))) \<and>
   kGrowthHack = 256 \<and> Small_kMaxCapacity = 254 \<and>
   (SmallOrderedHashTable_Grow H v isolate table = None \<longleftrightarrow>
      NumberOfDeletedElements table < Capacity table div 2 \<and>
      (if 2 * Capacity table = kGrowthHack then Small_kMaxCapacity else 2 * Capacity table)
        > Small_kMaxCapacity)"
  by (simp add: SmallOrderedHashTable_Grow_def Let_def drop_bit_eq_div push_bit_eq_mult
      mult.commute kGrowthHack_def Small_kMaxCapacity_def)

subsection \<open>Transition of the iterator\<close>

lemma Transition_removed_loop_takeWhile:
  "0 \<le> i \<Longrightarrow>
   Transition_removed_loop table nod old_index i index =
     index - int (length (takeWhile (\<lambda>r. r < old_index)
                    (map (\<lambda>j. RemovedIndexAt table (int j)) [nat i ..< nat nod])))"
proof (induction table nod old_index i index rule: Transition_removed_loop.induct)
  case (1 table nod old_index i index)
  show ?case
  proof (cases "i < nod")
    case False
    then show ?thesis
      using "1.prems" by (subst Transition_removed_loop.simps) simp
  next
    case True
    then have upt: "[nat i ..< nat nod] = nat i # [nat (i + 1) ..< nat nod]"
      using "1.prems" by (simp add: upt_conv_Cons nat_add_distrib)
    show ?thesis
    proof (cases "RemovedIndexAt table i \<ge> old_index")
      case True
      then show ?thesis
        using \<open>i < nod\<close> "1.prems" unfolding upt
        by (subst Transition_removed_loop.simps) simp
    next
      case False
      then have "Transition_removed_loop table nod old_index (i + 1) (index - 1) =
          index - 1 - int (length (takeWhile (\<lambda>r. r < old_index)
                    (map (\<lambda>j. RemovedIndexAt table (int j)) [nat (i + 1) ..< nat nod])))"
        using "1.IH"[OF \<open>i < nod\<close>] "1.prems" by simp
      then show ?thesis
        using False \<open>i < nod\<close> "1.prems" unfolding upt
        by (subst Transition_removed_loop.simps) simp
    qed
  qed
qed

lemma length_takeWhile_less_bound:
  assumes "sorted_wrt (<) rs" "\<forall>r \<in> set rs. 0 \<le> r" "0 \<le> index"
  shows "int (length (takeWhile (\<lambda>r. r < index) rs)) \<le> index"
proof -
  let ?ts = "takeWhile (\<lambda>r. r < index) rs"
  have "distinct rs"
    using assms(1) by (simp add: strict_sorted_iff)
  then have d: "distinct ?ts"
    by (rule distinct_takeWhile)
  have "set ?ts \<subseteq> {0 ..< index}"
    using assms(2) by (auto dest: set_takeWhileD)
  then have "card (set ?ts) \<le> card {0 ..< index}"
    by (intro card_mono) auto
  then have "length ?ts \<le> nat index"
    using distinct_card[OF d] by simp
  then show ?thesis
    using assms(3) by linarith
qed

lemma adjusted_index_nonneg:
  assumes "removed_log_ok predecessor" "0 \<le> index"
  shows "0 \<le> adjusted_index H predecessor index"
  using length_takeWhile_less_bound[of "removed_indices predecessor" index] assms
  unfolding adjusted_index_def removed_log_ok_def by auto

lemma adjusted_index_zero:
  assumes "removed_log_ok predecessor"
  shows "adjusted_index H predecessor 0 = 0"
proof -
  have "takeWhile (\<lambda>r. r < 0) (removed_indices predecessor) = []"
    using assms unfolding removed_log_ok_def
    by (cases "removed_indices predecessor") auto
  then show ?thesis
    unfolding adjusted_index_def by simp
qed

lemma Transition_loop_follows_chain:
  assumes "obsolete_chain hp a path b" "0 \<le> index" "\<forall>p \<in> set path. removed_log_ok (hp ! p)"
  shows "Transition_loop H hp a index =
           Some (b, foldl (\<lambda>i p. adjusted_index H (hp ! p) i) index path)"
  using assms
proof (induction path arbitrary: a index)
  case Nil
  then show ?case
    by (subst Transition_loop.simps) auto
next
  case (Cons p ps)
  then have p: "p = a" "IsObsolete (hp ! a)"
      "obsolete_chain hp (the (NextTable (hp ! a))) ps b" "removed_log_ok (hp ! a)"
    by auto
  let ?index' = "adjusted_index H (hp ! a) index"
  have step: "(if index > 0
               then
                 let nod = NumberOfDeletedElements (hp ! a) in
                 if nod = kClearedTableSentinel H then 0
                 else Transition_removed_loop (hp ! a) nod index 0 index
               else index) = ?index'"
  proof (cases "index > 0")
    case True
    then show ?thesis
      using Transition_removed_loop_takeWhile[of 0 "hp ! a" "NumberOfDeletedElements (hp ! a)" index index]
      by (simp add: adjusted_index_def removed_indices_def Let_def)
  next
    case False
    then have "index = 0"
      using Cons.prems(2) by simp
    then show ?thesis
      using adjusted_index_zero[OF p(4)] by simp
  qed
  have nonneg: "0 \<le> ?index'"
    by (rule adjusted_index_nonneg[OF p(4) Cons.prems(2)])
  have "Transition_loop H hp a index =
          Transition_loop H hp (the (NextTable (hp ! a))) ?index'"
    using p(2) step by (subst Transition_loop.simps) (simp add: Let_def)
  also have "\<dots> = Some (b, foldl (\<lambda>i p. adjusted_index H (hp ! p) i) ?index' ps)"
    using Cons.IH[OF p(3) nonneg] Cons.prems(3) by simp
  finally show ?case
    using p(1) by simp
qed

lemma obsolete_chain_end: "obsolete_chain hp a path b \<Longrightarrow> \<not> IsObsolete (hp ! b)"
  by (induction path arbitrary: a) auto

text \<open>
  Claim C3: on an iterator whose table is obsolete, \<open>Transition\<close> follows the forwarding
  pointers to the first table that is not obsolete, and adjusts the index once for each
  obsolete table on the way, in order, by \<open>adjusted_index\<close>: to 0 for a cleared table,
  otherwise down by one for each recorded removed index below the index on entry, up to
  the first one that is not below it. The removed indices of a table are slot indices
  recorded in ascending order (\<open>removed_log_ok\<close>), and the index is not negative, as the
  \<open>DCHECK\<close> of the source says.
\<close>

theorem Transition_follows_chain_and_adjusts_index:
  assumes "obsolete_chain (heap isolate) (iterator_table this) path b"
    and "IsObsolete (heap isolate ! iterator_table this)"
    and "0 \<le> iterator_index this"
    and "\<forall>p \<in> set path. removed_log_ok (heap isolate ! p)"
  shows "Transition H isolate this =
           Some (this\<lparr>iterator_table := b,
                      iterator_index :=
                        foldl (\<lambda>index p. adjusted_index H (heap isolate ! p) index)
                          (iterator_index this) path\<rparr>) \<and>
         \<not> IsObsolete (heap isolate ! b) \<and> path \<noteq> []"
proof -
  have ne: "path \<noteq> []"
    using assms(1,2) by (cases path) auto
  show ?thesis
    unfolding Transition_def
    using assms(2) Transition_loop_follows_chain[OF assms(1,3,4), of H]
      obsolete_chain_end[OF assms(1)] ne
    by simp
qed

theorem Transition_follows_chain_and_adjusts_index_witness:
  "obsolete_chain example_chain_heap 0 [0, 1] 2 \<and>
   IsObsolete (example_chain_heap ! 0) \<and>
   removed_log_ok (example_chain_heap ! 0) \<and> removed_log_ok (example_chain_heap ! 1) \<and>
   Transition example_host (empty_isolate\<lparr>heap := example_chain_heap\<rparr>)
       \<lparr>iterator_table = 0, iterator_index = 5\<rparr> =
     Some \<lparr>iterator_table = 2, iterator_index = 2\<rparr>"
proof -
  let ?isolate = "empty_isolate\<lparr>heap := example_chain_heap\<rparr>"
  let ?it = "\<lparr>iterator_table = 0, iterator_index = 5\<rparr>"
  have upt3: "[0 ..< 3] = [0, 1, 2::nat]"
    by (simp add: upt_rec)
  have c: "obsolete_chain (heap ?isolate) (iterator_table ?it) [0, 1] 2"
    by (simp add: example_chain_heap_def IsObsolete_def fresh_table_def)
  have o: "IsObsolete (heap ?isolate ! iterator_table ?it)"
    by (simp add: example_chain_heap_def IsObsolete_def)
  have i: "0 \<le> iterator_index ?it"
    by simp
  have r: "\<forall>p \<in> set [0, 1]. removed_log_ok (heap ?isolate ! p)"
    by (simp add: example_chain_heap_def removed_log_ok_def removed_indices_def
        RemovedIndexAt_def upt3)
  show ?thesis
    using c o r Transition_follows_chain_and_adjusts_index[OF c o i r, of example_host]
    by (simp add: adjusted_index_def removed_indices_def RemovedIndexAt_def upt3
        example_chain_heap_def example_host_def)
qed

subsection \<open>Chains and the chain walk\<close>


lemma chain_of_bounds:
  "e \<in> set (chain_of cs s) \<Longrightarrow> 0 \<le> e \<and> e \<le> s \<and> nat e < length cs"
proof (induction cs s rule: chain_of.induct)
  case (1 cs s)
  show ?case
  proof (cases "0 \<le> s \<and> nat s < length cs")
    case False
    then show ?thesis using "1.prems" by (subst (asm) chain_of.simps) simp
  next
    case True
    show ?thesis
    proof (cases "cs ! nat s < s")
      case True
      then show ?thesis using "1.prems" "1.IH" \<open>0 \<le> s \<and> nat s < length cs\<close>
        by (subst (asm) chain_of.simps) auto
    next
      case False
      then show ?thesis using "1.prems" \<open>0 \<le> s \<and> nat s < length cs\<close>
        by (subst (asm) chain_of.simps) auto
    qed
  qed
qed

lemma chain_of_not_index: "\<not> (0 \<le> s \<and> nat s < length cs) \<Longrightarrow> chain_of cs s = []"
  by (subst chain_of.simps) simp

lemma chain_of_update:
  "s < int n \<Longrightarrow> chain_of (cs[n := x]) s = chain_of cs s"
proof (induction cs s rule: chain_of.induct)
  case (1 cs s)
  show ?case
  proof (cases "0 \<le> s \<and> nat s < length cs")
    case False
    then show ?thesis by (simp add: chain_of_not_index)
  next
    case True
    then have ne: "nat s \<noteq> n" using "1.prems" by linarith
    show ?thesis
    proof (cases "cs ! nat s < s")
      case True
      then have "chain_of (cs[n := x]) (cs ! nat s) = chain_of cs (cs ! nat s)"
        using "1.IH" \<open>0 \<le> s \<and> nat s < length cs\<close> "1.prems" by simp
      then show ?thesis
        using True \<open>0 \<le> s \<and> nat s < length cs\<close> ne
        by (subst chain_of.simps, subst (2) chain_of.simps) simp
    next
      case False
      then show ?thesis
        using \<open>0 \<le> s \<and> nat s < length cs\<close> ne
        by (subst chain_of.simps, subst (2) chain_of.simps) simp
    qed
  qed
qed


lemma FindInChain_chain_of:
  assumes "links_ok not_found n bs (chains t)" "n \<le> length (chains t)"
    and "not_found < 0 \<or> int (length (chains t)) \<le> not_found"
    and "s = not_found \<or> (0 \<le> s \<and> s < int n)"
  shows "FindInChain not_found same t key s =
           Some (find_result (find (\<lambda>e. same (KeyAt t e) key) (chain_of (chains t) s)))"
  using assms(4)
proof (induction "chains t" s rule: chain_of.induct)
  case (1 s)
  show ?case
  proof (cases "s = not_found")
    case True
    then have "chain_of (chains t) s = []"
      using assms(3) by (intro chain_of_not_index) auto
    then show ?thesis
      using True by (subst FindInChain.simps) (simp add: find_result_def)
  next
    case False
    then have s: "0 \<le> s" "s < int n" using "1.prems" by auto
    then have idx: "0 \<le> s \<and> nat s < length (chains t)" using assms(2) by linarith
    have link: "chains t ! nat s = not_found \<or> (0 \<le> chains t ! nat s \<and> chains t ! nat s < s)"
      using assms(1) s unfolding links_ok_def by (auto simp: nat_less_iff dest!: spec[of _ "nat s"])
    show ?thesis
    proof (cases "same (KeyAt t s) key")
      case True
      then show ?thesis
        using False idx
        by (subst FindInChain.simps, subst chain_of.simps) (simp add: find_result_def)
    next
      case nsame: False
      show ?thesis
      proof (cases "chains t ! nat s = not_found")
        case True
        then have "chain_of (chains t) (chains t ! nat s) = []"
          using assms(3) by (intro chain_of_not_index) auto
        then have "chain_of (chains t) s = [s]"
          using idx by (subst chain_of.simps) simp
        moreover have "FindInChain not_found same t key (chains t ! nat s) = Some NotFound"
          using True by (subst FindInChain.simps) simp
        ultimately show ?thesis
          using False nsame
          by (subst FindInChain.simps) (simp add: find_result_def NextChainEntryRaw_def)
      next
        case nf: False
        then have l: "0 \<le> chains t ! nat s" "chains t ! nat s < s" using link by auto
        have ih: "FindInChain not_found same t key (chains t ! nat s) =
           Some (find_result (find (\<lambda>e. same (KeyAt t e) key) (chain_of (chains t) (chains t ! nat s))))"
          using "1.hyps"[OF idx l(2)] l s by simp
        show ?thesis
          using False nsame idx l ih
          by (subst FindInChain.simps, subst chain_of.simps) (simp add: NextChainEntryRaw_def)
      qed
    qed
  qed
qed

lemma links_ok_insert:
  assumes "links_ok nf n bs cs" "b < length bs" "n < length cs"
  shows "links_ok nf (Suc n) (bs[b := int n]) (cs[n := bs ! b])"
proof -
  have head: "bs ! b = nf \<or> (0 \<le> bs ! b \<and> bs ! b < int n)"
    using assms(1,2) unfolding links_ok_def by (meson nth_mem)
  have "\<forall>x \<in> set (bs[b := int n]). x = nf \<or> (0 \<le> x \<and> x < int (Suc n))"
  proof
    fix x assume "x \<in> set (bs[b := int n])"
    then have "x = int n \<or> x \<in> set bs"
      using set_update_subset_insert[of bs b "int n"] by auto
    then show "x = nf \<or> (0 \<le> x \<and> x < int (Suc n))"
      using assms(1) unfolding links_ok_def by auto
  qed
  moreover have "\<forall>e < Suc n. cs[n := bs ! b] ! e = nf \<or>
      (0 \<le> cs[n := bs ! b] ! e \<and> cs[n := bs ! b] ! e < int e)"
  proof (intro allI impI)
    fix e assume "e < Suc n"
    show "cs[n := bs ! b] ! e = nf \<or> (0 \<le> cs[n := bs ! b] ! e \<and> cs[n := bs ! b] ! e < int e)"
    proof (cases "e = n")
      case True
      then show ?thesis using head assms(3) by simp
    next
      case False
      then have "e < n" using \<open>e < Suc n\<close> by simp
      then show ?thesis using assms(1) False unfolding links_ok_def by simp
    qed
  qed
  ultimately show ?thesis unfolding links_ok_def by blast
qed

lemma chain_of_head:
  assumes "0 \<le> s" "nat s < length cs"
  shows "s \<in> set (chain_of cs s)"
  using assms by (subst chain_of.simps) simp

lemma chain_of_nonempty_index:
  assumes "e \<in> set (chain_of cs s)"
  shows "0 \<le> s \<and> nat s < length cs"
  using assms chain_of_not_index[of s cs] by fastforce

lemma reach_ok_insert:
  assumes r: "reach_ok hs bk n bs cs ds"
    and l: "links_ok nf n bs cs"
    and nf: "nf < 0 \<or> int (length cs) \<le> nf"
    and bk: "\<forall>h. 0 \<le> bk h \<and> nat (bk h) < length bs"
    and n: "n < length cs" "n < length ds"
    and h: "hs (row ! kKeyIndex) = Some hash"
  shows "reach_ok hs bk (Suc n) (bs[nat (bk hash) := int n]) (cs[n := bs ! nat (bk hash)]) (ds[n := row])"
  unfolding reach_ok_def
proof (intro allI impI)
  let ?b = "nat (bk hash)"
  let ?bs = "bs[?b := int n]" and ?cs = "cs[n := bs ! ?b]" and ?ds = "ds[n := row]"
  fix e assume e: "e < Suc n" and live: "\<not> IsTheHole (?ds ! e ! kKeyIndex)"
  have b: "?b < length bs" using bk by simp
  have new_chain: "int n \<in> set (chain_of ?cs (int n))"
    using n(1) by (intro chain_of_head) auto
  show "\<exists>h. hs (?ds ! e ! kKeyIndex) = Some h \<and> int e \<in> set (chain_of ?cs (?bs ! nat (bk h)))"
  proof (cases "e = n")
    case True
    then have "?ds ! e ! kKeyIndex = row ! kKeyIndex" using n(2) by simp
    moreover have "?bs ! nat (bk hash) = int n" using b by simp
    ultimately show ?thesis using h new_chain True by auto
  next
    case False
    then have en: "e < n" using e by simp
    then have "?ds ! e = ds ! e" by simp
    then obtain h' where h': "hs (ds ! e ! kKeyIndex) = Some h'"
        "int e \<in> set (chain_of cs (bs ! nat (bk h')))"
      using r live en unfolding reach_ok_def by auto
    let ?head = "bs ! nat (bk h')"
    have idx: "0 \<le> ?head \<and> nat ?head < length cs"
      using chain_of_nonempty_index[OF h'(2)] .
    have "?head \<in> set bs" using bk by (intro nth_mem) simp
    then have "?head = nf \<or> (0 \<le> ?head \<and> ?head < int n)"
      using l unfolding links_ok_def by auto
    then have head_lt: "?head < int n" using idx nf by linarith
    have same: "chain_of ?cs ?head = chain_of cs ?head"
      by (rule chain_of_update[OF head_lt])
    show ?thesis
    proof (cases "nat (bk h') = ?b")
      case True
      then have hd: "?bs ! nat (bk h') = int n" using b by simp
      have "cs[n := ?head] ! n = ?head" using n(1) by simp
      then have "chain_of ?cs (int n) = int n # chain_of ?cs ?head"
        using n(1) head_lt True by (subst chain_of.simps) simp
      then have "int e \<in> set (chain_of ?cs (int n))"
        using h'(2) same True by simp
      then show ?thesis using h' hd \<open>?ds ! e = ds ! e\<close> by auto
    next
      case False
      then have "?bs ! nat (bk h') = ?head" by simp
      then show ?thesis using h' same \<open>?ds ! e = ds ! e\<close> by auto
    qed
  qed
qed


subsection \<open>Inserting an entry\<close>

lemma GetOrCreateHash_existing:
  "hashes isolate key = Some h \<Longrightarrow> GetOrCreateHash H isolate key = (h, isolate)"
  by (simp add: GetOrCreateHash_def)

lemma GetOrCreateHash_result:
  assumes "GetOrCreateHash H isolate key = (h, isolate')"
  shows "hashes isolate' key = Some h" "heap isolate' = heap isolate"
    "\<forall>k h'. hashes isolate k = Some h' \<longrightarrow> hashes isolate' k = Some h'"
  using assms by (auto simp: GetOrCreateHash_def split: option.splits)

lemma GetOrCreateHash_hash_ok:
  assumes "GetOrCreateHash H isolate key = (h, isolate')" "hash_ok H isolate"
  shows "hash_ok H isolate'"
proof (cases "hashes isolate key")
  case (Some h')
  then show ?thesis using assms by (simp add: GetOrCreateHash_def)
next
  case None
  then have eq: "hashes isolate' = (hashes isolate)(key \<mapsto> CreateHash H key)"
    using assms(1) by (auto simp: GetOrCreateHash_def)
  have only: "\<And>b. SameValueZero H key b \<Longrightarrow> key = b" "\<And>b. SameValueZero H b key \<Longrightarrow> b = key"
    using assms(2) None unfolding hash_ok_def by metis+
  show ?thesis
    unfolding hash_ok_def eq using assms(2) only unfolding hash_ok_def
    by (auto simp: fun_upd_def)
qed

lemma HashToBucket_range:
  assumes "0 < NumberOfBuckets t"
  shows "0 \<le> HashToBucket t h" "HashToBucket t h < NumberOfBuckets t"
proof -
  have m: "0 \<le> NumberOfBuckets t - 1" using assms by simp
  show "0 \<le> HashToBucket t h"
    unfolding HashToBucket_def using m by (simp add: and_nonnegative_int_iff)
  have "h AND (NumberOfBuckets t - 1) \<le> NumberOfBuckets t - 1"
    using m by (rule AND_upper2)
  then show "HashToBucket t h < NumberOfBuckets t"
    unfolding HashToBucket_def by simp
qed

lemma Small_HashToBucket_range:
  assumes "0 < NumberOfBuckets t"
  shows "0 \<le> Small_HashToBucket t h" "Small_HashToBucket t h < NumberOfBuckets t"
  using assms unfolding Small_HashToBucket_def by simp_all






subsection \<open>Looking a key up\<close>

lemma table_sizes_okD:
  assumes "table_sizes_ok v t"
  shows "0 \<le> UsedCapacity t" "nat (UsedCapacity t) \<le> length (data t)"
    "nat (UsedCapacity t) \<le> length (chains t)" "length (buckets t) = nat (NumberOfBuckets t)"
proof -
  show "0 \<le> UsedCapacity t"
    using assms unfolding table_sizes_ok_def UsedCapacity_def by simp
  have "nat (UsedCapacity t) \<le> nat (Capacity t)"
    using assms unfolding table_sizes_ok_def by linarith
  then show "nat (UsedCapacity t) \<le> length (data t)" "nat (UsedCapacity t) \<le> length (chains t)"
    using assms unfolding table_sizes_ok_def by simp_all
  show "length (buckets t) = nat (NumberOfBuckets t)"
    using assms unfolding table_sizes_ok_def by simp
qed

lemma used_rows_length:
  assumes "table_sizes_ok v t"
  shows "length (used_rows t) = nat (UsedCapacity t)"
  using table_sizes_okD(2)[OF assms] unfolding used_rows_def by simp

lemma used_rows_nth:
  assumes "e < nat (UsedCapacity t)"
  shows "used_rows t ! e = data t ! e"
  using assms unfolding used_rows_def by simp

lemma NumberOfElements_live:
  assumes "table_sizes_ok v t" "table_counts_ok t"
  shows "NumberOfElements t = int (length (live_entries t))"
proof -
  let ?P = "\<lambda>row. IsTheHole (row ! kKeyIndex)"
  have "length (filter ?P (used_rows t)) + length (filter (\<lambda>row. \<not> ?P row) (used_rows t))
          = length (used_rows t)"
    by (rule sum_length_filter_compl)
  moreover have "length (filter IsTheHole (slot_keys t)) = length (filter ?P (used_rows t))"
    unfolding slot_keys_def by (simp add: filter_map comp_def)
  moreover have "0 \<le> UsedCapacity t"
    using assms(1) unfolding table_sizes_ok_def UsedCapacity_def by simp
  ultimately show ?thesis
    using assms(2) used_rows_length[OF assms(1)]
    unfolding table_counts_ok_def live_entries_def UsedCapacity_def by linarith
qed

lemma live_keys_iff:
  assumes "table_sizes_ok v t"
  shows "k \<in> set (live_keys t) \<longleftrightarrow>
           (\<exists>e < nat (UsedCapacity t). k = KeyAt t (int e) \<and> \<not> IsTheHole k)"
proof -
  have "k \<in> set (live_keys t) \<longleftrightarrow>
          (\<exists>row \<in> set (used_rows t). k = row ! kKeyIndex \<and> \<not> IsTheHole k)"
    unfolding live_keys_def live_entries_def by auto
  also have "\<dots> \<longleftrightarrow> (\<exists>e < length (used_rows t). k = used_rows t ! e ! kKeyIndex \<and> \<not> IsTheHole k)"
    by (metis in_set_conv_nth)
  also have "\<dots> \<longleftrightarrow> (\<exists>e < nat (UsedCapacity t). k = KeyAt t (int e) \<and> \<not> IsTheHole k)"
    unfolding used_rows_length[OF assms]
    by (auto simp: used_rows_nth KeyAt_def get_data_def)
  finally show ?thesis .
qed

lemma chain_of_below:
  assumes "links_ok nf n bs cs" "s \<in> set bs" "e \<in> set (chain_of cs s)"
    "nf < 0 \<or> int (length cs) \<le> nf"
  shows "0 \<le> e \<and> e < int n"
proof -
  have idx: "0 \<le> s \<and> nat s < length cs"
    by (rule chain_of_nonempty_index[OF assms(3)])
  have "s = nf \<or> (0 \<le> s \<and> s < int n)"
    using assms(1,2) unfolding links_ok_def by auto
  then have "s < int n" using idx assms(4) by linarith
  then show ?thesis using chain_of_bounds[OF assms(3)] by linarith
qed

lemma walk_absent:
  assumes sz: "table_sizes_ok v t"
    and l: "links_ok nf (nat (UsedCapacity t)) (buckets t) (chains t)"
    and nf: "nf < 0 \<or> int (length (chains t)) \<le> nf"
    and hole: "\<forall>k. SameValueZero H TheHole k \<longrightarrow> k = TheHole"
    and key: "key \<noteq> TheHole" "\<not> contains_key H t key"
    and s: "s \<in> set (buckets t)"
  shows "FindInChain nf (SameValueZero H) t key s = Some NotFound"
proof -
  let ?n = "nat (UsedCapacity t)"
  have u0: "0 \<le> UsedCapacity t"
    using sz unfolding table_sizes_ok_def UsedCapacity_def by simp
  have nlen: "?n \<le> length (chains t)"
    by (rule table_sizes_okD(3)[OF sz])
  have start: "s = nf \<or> (0 \<le> s \<and> s < int ?n)"
    using l s unfolding links_ok_def by auto
  have "find (\<lambda>e. SameValueZero H (KeyAt t e) key) (chain_of (chains t) s) = None"
  proof (rule ccontr)
    assume "find (\<lambda>e. SameValueZero H (KeyAt t e) key) (chain_of (chains t) s) \<noteq> None"
    then obtain e where e: "e \<in> set (chain_of (chains t) s)" "SameValueZero H (KeyAt t e) key"
      by (auto simp: find_None_iff)
    have b: "0 \<le> e \<and> e < int ?n"
      by (rule chain_of_below[OF l s e(1) nf])
    have "\<not> IsTheHole (KeyAt t e)"
      using e(2) hole key(1) unfolding IsTheHole_def by auto
    then have "KeyAt t e \<in> set (live_keys t)"
      unfolding live_keys_iff[OF sz] using b u0 by (intro exI[of _ "nat e"]) auto
    then show False
      using key(2) e(2) unfolding contains_key_def by blast
  qed
  then show ?thesis
    unfolding FindInChain_chain_of[OF l nlen nf start] by (simp add: find_result_def)
qed

lemma walk_present:
  assumes sz: "table_sizes_ok v t"
    and l: "links_ok nf (nat (UsedCapacity t)) (buckets t) (chains t)"
    and nf: "nf < 0 \<or> int (length (chains t)) \<le> nf"
    and r: "reach_ok hs bk (nat (UsedCapacity t)) (buckets t) (chains t) (data t)"
    and hs: "\<forall>a b. SameValueZero H a b \<longrightarrow> hs a = hs b"
    and bk: "\<forall>h. 0 \<le> bk h \<and> nat (bk h) < length (buckets t)"
    and c: "contains_key H t key"
  shows "\<exists>h e. hs key = Some h \<and>
           FindInChain nf (SameValueZero H) t key (buckets t ! nat (bk h)) = Some (Entry e)"
proof -
  let ?n = "nat (UsedCapacity t)"
  obtain k where k: "k \<in> set (live_keys t)" "SameValueZero H k key"
    using c unfolding contains_key_def by blast
  then obtain e where e: "e < ?n" "k = KeyAt t (int e)" "\<not> IsTheHole k"
    unfolding live_keys_iff[OF sz] by blast
  then obtain h where h: "hs k = Some h" "int e \<in> set (chain_of (chains t) (buckets t ! nat (bk h)))"
    using r unfolding reach_ok_def KeyAt_def get_data_def by auto
  let ?s = "buckets t ! nat (bk h)"
  have hk: "hs key = Some h"
    using hs k(2) h(1) by metis
  have s: "?s \<in> set (buckets t)"
    using bk by (intro nth_mem) simp
  have nlen: "?n \<le> length (chains t)"
    by (rule table_sizes_okD(3)[OF sz])
  have start: "?s = nf \<or> (0 \<le> ?s \<and> ?s < int ?n)"
    using l s unfolding links_ok_def by auto
  have "find (\<lambda>e. SameValueZero H (KeyAt t e) key) (chain_of (chains t) ?s) \<noteq> None"
    using h(2) e(2) k(2) by (auto simp: find_None_iff)
  then obtain e' where "find (\<lambda>e. SameValueZero H (KeyAt t e) key) (chain_of (chains t) ?s) = Some e'"
    by auto
  then have "FindInChain nf (SameValueZero H) t key ?s = Some (Entry e')"
    unfolding FindInChain_chain_of[OF l nlen nf start] by (simp add: find_result_def)
  then show ?thesis using hk by blast
qed

subsection \<open>Rehash\<close>

lemma copy_rows_fold:
  assumes "k \<le> length r" "k \<le> length (data nt ! n)" "n < length (data nt)"
  shows "fold (\<lambda>i nt'. set_data nt' (int n) i (r ! i)) [0 ..< k] nt =
           nt\<lparr>data := (data nt)[n := take k r @ drop k (data nt ! n)]\<rparr>"
  using assms
proof (induction k)
  case 0
  then show ?case by simp
next
  case (Suc k)
  let ?D = "data nt" and ?row = "data nt ! n"
  have ih: "fold (\<lambda>i nt'. set_data nt' (int n) i (r ! i)) [0 ..< k] nt =
           nt\<lparr>data := ?D[n := take k r @ drop k ?row]\<rparr>"
    using Suc by simp
  have k: "k < length r" "k < length ?row" using Suc.prems by auto
  have "(take k r @ drop k ?row)[k := r ! k] = take (Suc k) r @ drop (Suc k) ?row"
  proof -
    have "(take k r @ drop k ?row)[k := r ! k] = take k r @ (drop k ?row)[0 := r ! k]"
      using k by (simp add: list_update_append)
    also have "(drop k ?row)[0 := r ! k] = r ! k # drop (Suc k) ?row"
      using k by (simp add: Cons_nth_drop_Suc[symmetric])
    finally show ?thesis using k by (simp add: take_Suc_conv_app_nth)
  qed
  then have upd: "set_data (nt\<lparr>data := ?D[n := take k r @ drop k ?row]\<rparr>) (int n) k (r ! k) =
      nt\<lparr>data := ?D[n := take (Suc k) r @ drop (Suc k) ?row]\<rparr>"
    using Suc.prems(3) by (simp add: set_data_def)
  have "fold (\<lambda>i nt'. set_data nt' (int n) i (r ! i)) [0 ..< Suc k] nt =
      set_data (fold (\<lambda>i nt'. set_data nt' (int n) i (r ! i)) [0 ..< k] nt) (int n) k (r ! k)"
    by simp
  then show ?case
    unfolding ih upd .
qed

lemma copy_entry_row:
  assumes "length (data table ! nat old_entry) = entrysize v"
    "length (data nt ! n) = entrysize v" "n < length (data nt)"
  shows "copy_entry v table old_entry nt (int n) = nt\<lparr>data := (data nt)[n := data table ! nat old_entry]\<rparr>"
  unfolding copy_entry_def get_data_def
  using copy_rows_fold[of "entrysize v" "data table ! nat old_entry" nt n] assms by simp

lemma rehash_inv_step:
  assumes inv: "rehash_inv src nt0 i s"
    and i: "i < length (data src)"
    and rows: "\<forall>row \<in> set (data src). length row = entrysize v"
      "\<forall>row \<in> set (data nt0). length row = entrysize v"
    and room: "length (filter (\<lambda>row. \<not> IsTheHole (row ! kKeyIndex)) (take (Suc i) (data src)))
                 \<le> length (data nt0)"
  shows "rehash_inv src nt0 (Suc i) (Rehash_step v isolate (int i) s)"
proof -
  let ?live = "\<lambda>row. \<not> IsTheHole (row ! kKeyIndex)"
  let ?hole = "\<lambda>e. IsTheHole (KeyAt src (int e))"
  obtain T NT ne rh where s: "s = (T, NT, ne, rh)"
    by (cases s) auto
  let ?L = "filter ?live (take i (data src))"
  have T: "T\<lparr>removed := removed src\<rparr> = src"
    and ne: "ne = int (length ?L)"
    and rh: "rh = int (length (filter ?hole [0 ..< i]))"
    and log: "map (\<lambda>j. removed T (int j)) [0 ..< nat rh] = map int (filter ?hole [0 ..< i])"
    and D: "data NT = ?L @ drop (nat ne) (data nt0)"
    and NT: "NT\<lparr>data := data nt0, buckets := buckets nt0, chains := chains nt0\<rparr> = nt0"
    and len: "length (buckets NT) = length (buckets nt0)" "length (chains NT) = length (chains nt0)"
    using inv unfolding rehash_inv_def s by auto
  have "data (T\<lparr>removed := removed src\<rparr>) = data src"
    using T by simp
  then have dT: "data T = data src" by simp
  have key: "KeyAt T (int i) = data src ! i ! kKeyIndex" "KeyAt src (int i) = data src ! i ! kKeyIndex"
    by (simp_all add: KeyAt_def get_data_def dT)
  have take_Suc: "take (Suc i) (data src) = take i (data src) @ [data src ! i]"
    using i by (simp add: take_Suc_conv_app_nth)
  show ?thesis
  proof (cases "IsTheHole (data src ! i ! kKeyIndex)")
    case True
    have step: "Rehash_step v isolate (int i) s = (SetRemovedIndexAt T rh (int i), NT, ne, rh + 1)"
      unfolding Rehash_step_def s using True key by simp
    have rh0: "0 \<le> rh" using rh by simp
    have upt: "[0 ..< nat (rh + 1)] = [0 ..< nat rh] @ [nat rh]"
      using rh0 by (simp add: nat_add_distrib)
    have old: "map (\<lambda>j. ((removed T)(rh := int i)) (int j)) [0 ..< nat rh] =
        map (\<lambda>j. removed T (int j)) [0 ..< nat rh]"
      using rh0 by (intro map_cong) auto
    have "map (\<lambda>j. removed (SetRemovedIndexAt T rh (int i)) (int j)) [0 ..< nat (rh + 1)] =
        map int (filter ?hole [0 ..< Suc i])"
      unfolding upt using True key rh0 old log by (simp add: SetRemovedIndexAt_def)
    moreover have "SetRemovedIndexAt T rh (int i)\<lparr>removed := removed src\<rparr> = src"
      using T by (simp add: SetRemovedIndexAt_def)
    moreover have "filter ?live (take (Suc i) (data src)) = ?L"
      unfolding take_Suc using True by simp
    moreover have "rh + 1 = int (length (filter ?hole [0 ..< Suc i]))"
      using rh True key by simp
    ultimately show ?thesis
      unfolding rehash_inv_def step using ne D NT len by simp
  next
    case False
    let ?n = "length ?L"
    let ?row = "data src ! i"
    have L': "filter ?live (take (Suc i) (data src)) = ?L @ [?row]"
      unfolding take_Suc using False by simp
    have n: "?n < length (data nt0)"
      using room unfolding L' by simp
    have nn: "nat ne = ?n" using ne by simp
    have lenD: "length (data NT) = length (data nt0)"
      unfolding D nn using n by simp
    have "data NT ! ?n = data nt0 ! ?n"
      unfolding D nn using n by (simp add: nth_append)
    then have row0: "length (data NT ! ?n) = entrysize v"
      using rows(2) n by simp
    have rowi: "length (data T ! nat (int i)) = entrysize v"
      using rows(1) i by (simp add: dT)
    let ?b = "the (GetHash isolate (data src ! i ! kKeyIndex)) AND (NumberOfBuckets NT - 1)"
    let ?NT1 = "set_bucket NT ?b ne"
    have c: "copy_entry v T (int i) ?NT1 (int ?n) = ?NT1\<lparr>data := (data ?NT1)[?n := data T ! nat (int i)]\<rparr>"
      by (rule copy_entry_row) (use rowi row0 n lenD in \<open>simp_all add: set_bucket_def\<close>)
    let ?NT' = "NT\<lparr>buckets := (buckets NT)[nat ?b := ne], data := (data NT)[?n := ?row],
                  chains := (chains NT)[?n := get_bucket NT ?b]\<rparr>"
    have step: "Rehash_step v isolate (int i) s = (T, ?NT', int (Suc ?n), rh)"
      unfolding Rehash_step_def s using False key c ne
      by (simp add: Let_def set_bucket_def set_chain_def dT)
    have "(data NT)[?n := ?row] = (?L @ [?row]) @ drop (Suc ?n) (data nt0)"
    proof -
      have "(data NT)[?n := ?row] = ?L @ (drop ?n (data nt0))[0 := ?row]"
        unfolding D nn by (simp add: list_update_append)
      also have "(drop ?n (data nt0))[0 := ?row] = ?row # drop (Suc ?n) (data nt0)"
        using n by (simp add: Cons_nth_drop_Suc[symmetric])
      finally show ?thesis by simp
    qed
    moreover have "nat (1 + int ?n) = Suc ?n" by simp
    moreover have "filter ?hole [0 ..< Suc i] = filter ?hole [0 ..< i]"
      using False key by simp
    moreover have "?NT'\<lparr>data := data nt0, buckets := buckets nt0, chains := chains nt0\<rparr> = nt0"
      using NT by simp
    ultimately show ?thesis
      unfolding rehash_inv_def step L' using T rh log len by simp
  qed
qed

lemma Derived_Allocate_in_range:
  assumes "host_ok H" "capacity \<le> 2 ^ 30"
  shows "Derived_Allocate H v isolate capacity =
           (if rounded_capacity H capacity > MaxCapacity H then Inl RangeError_kTooManyProperties
            else Inr (isolate\<lparr>heap := heap isolate @ [derived_fresh_table H v (rounded_capacity H capacity)]\<rparr>,
                      length (heap isolate)))"
  unfolding Derived_Allocate_def Allocate_in_range[OF assms] derived_fresh_table_def
  by simp

lemma rehash_inv_init: "rehash_inv src nt0 0 (src, nt0, 0, 0)"
  unfolding rehash_inv_def by simp

lemma length_filter_take_mono:
  "i \<le> j \<Longrightarrow> length (filter P (take i xs)) \<le> length (filter P (take j xs))"
proof -
  assume "i \<le> j"
  then have "take j xs = take i xs @ take (j - i) (drop i xs)"
    by (metis le_add_diff_inverse take_add)
  then show ?thesis by simp
qed

lemma rehash_inv_fold:
  assumes "\<forall>row \<in> set (data src). length row = entrysize v"
    "\<forall>row \<in> set (data nt0). length row = entrysize v"
    "i \<le> length (data src)"
    "length (filter (\<lambda>row. \<not> IsTheHole (row ! kKeyIndex)) (take i (data src))) \<le> length (data nt0)"
  shows "rehash_inv src nt0 i (fold (Rehash_step v isolate) (map int [0 ..< i]) (src, nt0, 0, 0))"
  using assms(3,4)
proof (induction i)
  case 0
  then show ?case by (simp add: rehash_inv_init)
next
  case (Suc i)
  have "length (filter (\<lambda>row. \<not> IsTheHole (row ! kKeyIndex)) (take i (data src)))
      \<le> length (filter (\<lambda>row. \<not> IsTheHole (row ! kKeyIndex)) (take (Suc i) (data src)))"
    by (rule length_filter_take_mono) simp
  then have ih: "rehash_inv src nt0 i (fold (Rehash_step v isolate) (map int [0 ..< i]) (src, nt0, 0, 0))"
    using Suc by simp
  have "i < length (data src)" using Suc.prems by simp
  from rehash_inv_step[OF ih this assms(1,2) Suc.prems(2), of isolate]
  show ?case by simp
qed

lemma length_filter_index_take:
  assumes "u \<le> length xs"
  shows "length (filter (\<lambda>e. P (xs ! e)) [0 ..< u]) = length (filter P (take u xs))"
proof -
  have t: "take u xs = map (\<lambda>e. xs ! e) [0 ..< u]"
    using assms by (simp add: list_eq_iff_nth_eq)
  show ?thesis
    unfolding t by (simp add: filter_map comp_def)
qed

lemma rounded_capacity_even:
  assumes "host_ok H"
  shows "rounded_capacity H c div 2 * 2 = rounded_capacity H c" "2 \<le> rounded_capacity H c"
proof -
  obtain k where k: "rounded_capacity H c = 2 ^ k"
    using rounded_capacity_bounds(2) by blast
  show 2: "2 \<le> rounded_capacity H c"
    using rounded_capacity_bounds(1)[of H c] host_ok_kInitialCapacity(1)[OF assms]
    by linarith
  then have "0 < k"
    unfolding k by (cases k) auto
  then have "rounded_capacity H c = 2 * 2 ^ (k - 1)"
    unfolding k by (cases k) auto
  then show "rounded_capacity H c div 2 * 2 = rounded_capacity H c"
    by simp
qed

lemma Rehash_result:
  assumes H: "host_ok H"
    and a: "a < length (heap isolate)"
    and sz: "table_sizes_ok v (heap isolate ! a)"
    and cnt: "table_counts_ok (heap isolate ! a)"
    and c30: "new_capacity \<le> 2 ^ 30"
    and ok: "rounded_capacity H new_capacity \<le> MaxCapacity H"
    and room: "NumberOfElements (heap isolate ! a) \<le> rounded_capacity H new_capacity"
  obtains T NT where
    "Rehash H v isolate a new_capacity =
       Inr (isolate\<lparr>heap := (heap isolate)[a := T] @ [NT]\<rparr>, length (heap isolate))"
    "T = (heap isolate ! a)
           \<lparr>removed := removed T,
            NextTable := (if 0 < NumberOfBuckets (heap isolate ! a)
                          then Some (length (heap isolate)) else NextTable (heap isolate ! a))\<rparr>"
    "removed_indices T = hole_slots (heap isolate ! a)"
    "live_entries NT = live_entries (heap isolate ! a)"
    "NumberOfElements NT = NumberOfElements (heap isolate ! a)"
    "NumberOfDeletedElements NT = 0"
    "Capacity NT = rounded_capacity H new_capacity"
    "NextTable NT = None"
    "Hash NT = (if v = NameDictionaryVariant then kNoHashSentinel H else 0)"
    "table_sizes_ok v NT" "table_counts_ok NT"
proof -
  let ?src = "heap isolate ! a"
  let ?rc = "rounded_capacity H new_capacity"
  let ?na = "length (heap isolate)"
  let ?nt0 = "derived_fresh_table H v ?rc"
  let ?isolate1 = "isolate\<lparr>heap := heap isolate @ [?nt0]\<rparr>"
  let ?live = "\<lambda>row. \<not> IsTheHole (row ! kKeyIndex)"
  let ?hole = "\<lambda>e. IsTheHole (KeyAt ?src (int e))"
  let ?u = "nat (UsedCapacity ?src)"
  have alloc: "Derived_Allocate H v isolate new_capacity = Inr (?isolate1, ?na)"
    unfolding Derived_Allocate_in_range[OF H c30] using ok by simp
  have h1: "(heap isolate @ [?nt0]) ! a = ?src" "(heap isolate @ [?nt0]) ! ?na = ?nt0"
    using a by (simp_all add: nth_append)
  have even: "?rc div 2 * 2 = ?rc" and rc2: "2 \<le> ?rc"
    using rounded_capacity_even[OF H] by auto
  have nt0: "data ?nt0 = replicate (nat ?rc) (replicate (entrysize v) TheHole)"
    "length (buckets ?nt0) = nat (?rc div 2)" "length (chains ?nt0) = nat ?rc"
    "NumberOfBuckets ?nt0 = ?rc div 2" "NumberOfDeletedElements ?nt0 = 0" "NextTable ?nt0 = None"
    "Hash ?nt0 = (if v = NameDictionaryVariant then kNoHashSentinel H else 0)"
    by (simp_all add: derived_fresh_table_def fresh_table_def)
  have u: "?u \<le> length (data ?src)" and u0: "0 \<le> UsedCapacity ?src"
    using table_sizes_okD[OF sz] by auto
  have rows: "\<forall>row \<in> set (data ?src). length row = entrysize v"
    using sz unfolding table_sizes_ok_def by simp
  have rows0: "\<forall>row \<in> set (data ?nt0). length row = entrysize v"
    unfolding nt0(1) by simp
  let ?L = "filter ?live (take ?u (data ?src))"
  have L: "?L = live_entries ?src"
    unfolding live_entries_def used_rows_def ..
  have nofL: "NumberOfElements ?src = int (length ?L)"
    unfolding L by (rule NumberOfElements_live[OF sz cnt])
  then have lenL: "length ?L \<le> nat ?rc"
    using room by linarith
  then have room': "length ?L \<le> length (data ?nt0)"
    unfolding nt0(1) by simp
  have inv: "rehash_inv ?src ?nt0 ?u
      (fold (Rehash_step v ?isolate1) (map int [0 ..< ?u]) (?src, ?nt0, 0, 0))"
    by (rule rehash_inv_fold[OF rows rows0 u room'])
  obtain T NT ne rh where f: "fold (Rehash_step v ?isolate1) (map int [0 ..< ?u]) (?src, ?nt0, 0, 0)
      = (T, NT, ne, rh)"
    by (cases "fold (Rehash_step v ?isolate1) (map int [0 ..< ?u]) (?src, ?nt0, 0, 0)") auto
  have T: "T\<lparr>removed := removed ?src\<rparr> = ?src"
    and ne: "ne = int (length ?L)"
    and rh: "rh = int (length (filter ?hole [0 ..< ?u]))"
    and log: "map (\<lambda>j. removed T (int j)) [0 ..< nat rh] = map int (filter ?hole [0 ..< ?u])"
    and D: "data NT = ?L @ drop (nat ne) (data ?nt0)"
    and NT: "NT\<lparr>data := data ?nt0, buckets := buckets ?nt0, chains := chains ?nt0\<rparr> = ?nt0"
    and len: "length (buckets NT) = length (buckets ?nt0)" "length (chains NT) = length (chains ?nt0)"
    using inv unfolding rehash_inv_def f by auto
  have "?src\<lparr>removed := removed T\<rparr> = T\<lparr>removed := removed ?src\<rparr>\<lparr>removed := removed T\<rparr>"
    by (simp only: T)
  then have T_eq: "T = ?src\<lparr>removed := removed T\<rparr>"
    by simp
  have Tf: "NumberOfElements T = NumberOfElements ?src" "NumberOfBuckets T = NumberOfBuckets ?src"
    "NumberOfDeletedElements T = NumberOfDeletedElements ?src" "NextTable T = NextTable ?src"
    using arg_cong[OF T, of NumberOfElements] arg_cong[OF T, of NumberOfBuckets]
      arg_cong[OF T, of NumberOfDeletedElements] arg_cong[OF T, of NextTable]
    by simp_all
  let ?T' = "if 0 < NumberOfBuckets T then T\<lparr>NextTable := Some ?na\<rparr> else T"
  let ?NT' = "NT\<lparr>NumberOfElements := NumberOfElements T\<rparr>"
  have NTf: "NumberOfBuckets NT = ?rc div 2" "NumberOfDeletedElements NT = 0" "NextTable NT = None"
    "Hash NT = (if v = NameDictionaryVariant then kNoHashSentinel H else 0)"
    using arg_cong[OF NT, of NumberOfBuckets] arg_cong[OF NT, of NumberOfDeletedElements]
      arg_cong[OF NT, of NextTable] arg_cong[OF NT, of Hash] nt0(4-7)
    by simp_all
  have r: "Rehash H v isolate a new_capacity =
       Inr (isolate\<lparr>heap := (heap isolate)[a := ?T'] @ [?NT']\<rparr>, ?na)"
    unfolding Rehash_def alloc using a
    by (simp add: h1 IterateEntries_def f Let_def list_update_append)
  have T': "?T' = ?src\<lparr>removed := removed ?T',
            NextTable := (if 0 < NumberOfBuckets ?src then Some ?na else NextTable ?src)\<rparr>"
  proof (cases "0 < NumberOfBuckets ?src")
    case True
    have "T\<lparr>NextTable := Some ?na\<rparr> = (?src\<lparr>removed := removed T\<rparr>)\<lparr>NextTable := Some ?na\<rparr>"
      by (rule arg_cong[OF T_eq, of "\<lambda>t. t\<lparr>NextTable := Some ?na\<rparr>"])
    then show ?thesis
      using True Tf(2) by simp
  next
    case False
    have "?src\<lparr>removed := removed T, NextTable := NextTable ?src\<rparr> = ?src\<lparr>removed := removed T\<rparr>"
      by simp
    then show ?thesis
      using False Tf(2) by (simp add: T_eq[symmetric])
  qed
  have "length (filter ?hole [0 ..< ?u]) =
      length (filter (\<lambda>row. IsTheHole (row ! kKeyIndex)) (take ?u (data ?src)))"
    using length_filter_index_take[OF u, of "\<lambda>row. IsTheHole (row ! kKeyIndex)"]
    by (simp add: KeyAt_def get_data_def)
  then have nod: "NumberOfDeletedElements ?src = rh"
    using cnt unfolding table_counts_ok_def slot_keys_def used_rows_def rh
    by (simp add: filter_map comp_def)
  have rem: "removed_indices ?T' = hole_slots ?src"
    unfolding removed_indices_def hole_slots_def RemovedIndexAt_def
    using log nod Tf(3) by simp
  have "UsedCapacity ?NT' = NumberOfElements ?src"
    using NTf(2) Tf(1) by (simp add: UsedCapacity_def)
  then have used': "UsedCapacity ?NT' = int (length ?L)"
    using nofL by simp
  have ur: "used_rows ?NT' = ?L"
    unfolding used_rows_def used' using D by simp
  have le': "live_entries ?NT' = live_entries ?src"
    unfolding live_entries_def ur by (simp add: L[unfolded live_entries_def])
  have cap': "Capacity ?NT' = ?rc"
    unfolding Capacity_def kLoadFactor_def using NTf(1) even by simp
  have lenD: "length (data NT) = nat ?rc"
    unfolding D ne nt0(1) using lenL by simp
  have rowsNT: "\<forall>row \<in> set (data NT). length row = entrysize v"
    unfolding D using rows rows0 by (auto dest: in_set_takeD in_set_dropD)
  have lenL_int: "int (length ?L) \<le> ?rc"
    using room nofL by simp
  have sz': "table_sizes_ok v ?NT'"
    unfolding table_sizes_ok_def cap' used'
    using NTf(1,2) len nt0(2,3) lenD rowsNT Tf(1) nofL lenL_int rc2 even by auto
  have cnt': "table_counts_ok ?NT'"
    unfolding table_counts_ok_def slot_keys_def ur using NTf(2)
    by (simp add: filter_map comp_def)
  show thesis
    by (rule that[OF r T' rem le' _ _ cap' _ _ sz' cnt']) (use Tf NTf in simp_all)
qed

subsection \<open>The example states are well formed\<close>

lemma host_ok_example: "host_ok example_host"
  unfolding host_ok_def example_host_def by (auto intro: exI[of _ 2])

lemma hash_ok_example: "hash_ok example_host (example_isolate hp)"
  unfolding hash_ok_def example_host_def example_isolate_def by simp

lemma upt_numerals:
  "[0 ..< 2] = [0, 1::nat]" "[0 ..< 3] = [0, 1, 2::nat]" "[0 ..< 4] = [0, 1, 2, 3::nat]"
  "[0 ..< 5] = [0, 1, 2, 3, 4::nat]"
  by (simp_all add: upt_rec)

lemma all_less_numerals:
  "(\<forall>e < (3::nat). P e) \<longleftrightarrow> P 0 \<and> P 1 \<and> P 2"
  "(\<forall>e < (5::nat). P e) \<longleftrightarrow> P 0 \<and> P 1 \<and> P 2 \<and> P 3 \<and> P 4"
  by (simp_all add: eval_nat_numeral less_Suc_eq all_conj_distrib imp_disjL)

lemma chain_of_examples:
  "chain_of [- 1, 0, - 1, - 1] 1 = [1, 0]" "chain_of [- 1, 0, - 1, - 1] 2 = [2]"
  "chain_of [- 1, - 1, - 1, - 1, 0, - 1, - 1, - 1] 4 = [4, 0]"
  "chain_of [- 1, - 1, - 1, - 1, 0, - 1, - 1, - 1] 1 = [1]"
  "chain_of [- 1, - 1, - 1, - 1, 0, - 1, - 1, - 1] 2 = [2]"
  "chain_of [- 1, - 1, - 1, - 1, 0, - 1, - 1, - 1] 3 = [3]"
  by (simp_all add: chain_of.simps[of _ 4] chain_of.simps[of _ 3] chain_of.simps[of _ 2]
      chain_of.simps[of _ 1] chain_of.simps[of _ 0] chain_of.simps[of _ "- 1"])

lemma example_set_table_sizes: "table_sizes_ok SetVariant example_set_table"
  unfolding table_sizes_ok_def example_set_table_def
  by (simp add: Capacity_def UsedCapacity_def kLoadFactor_def entrysize_def)

lemma example_set_table_counts: "table_counts_ok example_set_table"
  unfolding table_counts_ok_def slot_keys_def used_rows_def example_set_table_def
  by (simp add: UsedCapacity_def kKeyIndex_def IsTheHole_def)

lemma example_set_table_wf:
  "wf_large example_host SetVariant (example_isolate hp) example_set_table"
proof -
  have "links_ok (kNotFound example_host) (nat (UsedCapacity example_set_table))
      (buckets example_set_table) (chains example_set_table)"
    by (simp add: links_ok_def example_set_table_def UsedCapacity_def example_host_def
        all_less_numerals)
  moreover have "reach_ok (hashes (example_isolate hp)) (HashToBucket example_set_table)
      (nat (UsedCapacity example_set_table)) (buckets example_set_table)
      (chains example_set_table) (data example_set_table)"
    by (simp add: reach_ok_def example_set_table_def UsedCapacity_def all_less_numerals
        example_isolate_def kKeyIndex_def IsTheHole_def HashToBucket_def chain_of_examples)
  moreover have "Capacity example_set_table \<le> MaxCapacity example_host"
    by (simp add: Capacity_def example_set_table_def example_host_def kLoadFactor_def)
  ultimately show ?thesis
    unfolding wf_large_def using example_set_table_sizes example_set_table_counts by simp
qed

lemma rounded_capacity_example: "rounded_capacity example_host 4 = 4"
  using rounded_capacity_kInitialCapacity[OF host_ok_example] by (simp add: example_host_def)

lemma Derived_Allocate_example:
  "Derived_Allocate example_host SetVariant (example_isolate hp) 4 =
     Inr ((example_isolate hp)\<lparr>heap := hp @ [fresh_table example_host SetVariant 4]\<rparr>, length hp)"
  using Derived_Allocate_in_range[OF host_ok_example, of 4 SetVariant "example_isolate hp"]
  by (simp add: rounded_capacity_example derived_fresh_table_def)
    (simp add: example_host_def example_isolate_def)

subsection \<open>Rehash keeps the live entries in order\<close>

lemma hole_slots_ascending:
  "sorted_wrt (<) (hole_slots t)" "\<forall>r \<in> set (hole_slots t). 0 \<le> r"
  unfolding hole_slots_def by (auto simp: sorted_wrt_map intro: sorted_wrt_filter)

text \<open>
  Claim C1. \<open>Rehash\<close> copies the live rows of the source into the first slots of the new
  table and has no check of its own that they fit: \<open>EnsureCapacityForAdding\<close>, \<open>Shrink\<close>
  and \<open>Rehash(table)\<close>, which call it, ask for a capacity that holds the elements of the
  table. So let the table be well formed in its sizes and counters, and let \<open>new_capacity\<close>
  have a rounded capacity that \<open>Allocate\<close> accepts and that is at least the number of
  elements. Then \<open>Rehash\<close> returns a new table with the source's live rows in the same
  order and the source's element count; the source's removed-indices log holds the slot
  indices of its tombstones in ascending order; the forwarding pointer of the source is set
  to the new table exactly when the source has a bucket count other than zero; and nothing
  else of the source changes.
\<close>

theorem Rehash_keeps_live_entries_in_order:
  assumes "host_ok H" "a < length (heap isolate)"
    and "table_sizes_ok v (heap isolate ! a)" "table_counts_ok (heap isolate ! a)"
    and "rounded_capacity H new_capacity \<le> MaxCapacity H"
    and "NumberOfElements (heap isolate ! a) \<le> rounded_capacity H new_capacity"
  shows "\<exists>isolate'.
           Rehash H v isolate a new_capacity = Inr (isolate', length (heap isolate)) \<and>
           live_entries (heap isolate' ! length (heap isolate)) = live_entries (heap isolate ! a) \<and>
           NumberOfElements (heap isolate' ! length (heap isolate)) =
             NumberOfElements (heap isolate ! a) \<and>
           NumberOfDeletedElements (heap isolate' ! length (heap isolate)) = 0 \<and>
           removed_indices (heap isolate' ! a) = hole_slots (heap isolate ! a) \<and>
           removed_log_ok (heap isolate' ! a) \<and>
           heap isolate' ! a =
             (heap isolate ! a)
               \<lparr>removed := removed (heap isolate' ! a),
                NextTable := (if NumberOfBuckets (heap isolate ! a) \<noteq> 0
                              then Some (length (heap isolate))
                              else NextTable (heap isolate ! a))\<rparr>"
proof -
  have "new_capacity \<le> rounded_capacity H new_capacity"
    using rounded_capacity_bounds(1)[of H new_capacity] by simp
  moreover have "MaxCapacity H \<le> 2 ^ 29"
    using assms(1) unfolding host_ok_def by simp
  ultimately have c30: "new_capacity \<le> 2 ^ 30"
    using assms(5) by simp
  obtain T NT where r: "Rehash H v isolate a new_capacity =
       Inr (isolate\<lparr>heap := (heap isolate)[a := T] @ [NT]\<rparr>, length (heap isolate))"
    and T: "T = (heap isolate ! a)
           \<lparr>removed := removed T,
            NextTable := (if 0 < NumberOfBuckets (heap isolate ! a)
                          then Some (length (heap isolate)) else NextTable (heap isolate ! a))\<rparr>"
    and rem: "removed_indices T = hole_slots (heap isolate ! a)"
    and NT: "live_entries NT = live_entries (heap isolate ! a)"
      "NumberOfElements NT = NumberOfElements (heap isolate ! a)"
      "NumberOfDeletedElements NT = 0"
    by (rule Rehash_result[OF assms(1-4) c30 assms(5,6)])
  have nb: "0 < NumberOfBuckets (heap isolate ! a) \<longleftrightarrow> NumberOfBuckets (heap isolate ! a) \<noteq> 0"
    using assms(3) unfolding table_sizes_ok_def by auto
  have at_a: "((heap isolate)[a := T] @ [NT]) ! a = T"
    using assms(2) by (simp add: nth_append)
  have at_na: "((heap isolate)[a := T] @ [NT]) ! length (heap isolate) = NT"
    by (simp add: nth_append)
  have log: "removed_log_ok T"
    unfolding removed_log_ok_def rem using hole_slots_ascending by blast
  show ?thesis
    using r T rem NT log unfolding nb
    by (intro exI[of _ "isolate\<lparr>heap := (heap isolate)[a := T] @ [NT]\<rparr>"])
      (simp add: at_a at_na del: list_update.simps)
qed

lemma heap_example_isolate [simp]: "heap (example_isolate hp) = hp"
  by (simp add: example_isolate_def)

theorem Rehash_keeps_live_entries_in_order_witness:
  "host_ok example_host \<and>
   table_sizes_ok SetVariant example_set_table \<and> table_counts_ok example_set_table \<and>
   rounded_capacity example_host 4 \<le> MaxCapacity example_host \<and>
   NumberOfElements example_set_table \<le> rounded_capacity example_host 4 \<and>
   (\<exists>isolate'.
      Rehash example_host SetVariant (example_isolate [example_set_table]) 0 4 = Inr (isolate', 1) \<and>
      live_entries (heap isolate' ! 1) = [[Smi 1], [Smi 2]] \<and>
      removed_indices (heap isolate' ! 0) = [1] \<and>
      NextTable (heap isolate' ! 0) = Some 1)"
proof -
  let ?isolate = "example_isolate [example_set_table]"
  have a: "0 < length (heap ?isolate)"
    by simp
  have sz: "table_sizes_ok SetVariant (heap ?isolate ! 0)"
    using example_set_table_sizes by simp
  have cnt: "table_counts_ok (heap ?isolate ! 0)"
    using example_set_table_counts by simp
  have m: "rounded_capacity example_host 4 \<le> MaxCapacity example_host"
    unfolding rounded_capacity_example by (simp add: example_host_def)
  have room: "NumberOfElements (heap ?isolate ! 0) \<le> rounded_capacity example_host 4"
    unfolding rounded_capacity_example by (simp add: example_set_table_def)
  have live: "live_entries example_set_table = [[Smi 1], [Smi 2]]"
    by (simp add: live_entries_def used_rows_def example_set_table_def UsedCapacity_def
        kKeyIndex_def IsTheHole_def)
  have holes: "hole_slots example_set_table = [1]"
    by (simp add: hole_slots_def example_set_table_def UsedCapacity_def upt_numerals
        KeyAt_def get_data_def kKeyIndex_def IsTheHole_def)
  have nb: "NumberOfBuckets example_set_table \<noteq> 0"
    by (simp add: example_set_table_def)
  from Rehash_keeps_live_entries_in_order[OF host_ok_example a sz cnt m room]
  obtain isolate' where r:
    "Rehash example_host SetVariant ?isolate 0 4 = Inr (isolate', length (heap ?isolate))"
    "live_entries (heap isolate' ! length (heap ?isolate)) = live_entries (heap ?isolate ! 0)"
    "removed_indices (heap isolate' ! 0) = hole_slots (heap ?isolate ! 0)"
    "heap isolate' ! 0 =
       (heap ?isolate ! 0)
         \<lparr>removed := removed (heap isolate' ! 0),
          NextTable := (if NumberOfBuckets (heap ?isolate ! 0) \<noteq> 0
                        then Some (length (heap ?isolate))
                        else NextTable (heap ?isolate ! 0))\<rparr>"
    by blast
  have "NextTable (heap isolate' ! 0) = Some 1"
    by (subst r(4)) (simp add: nb)
  then show ?thesis
    using host_ok_example example_set_table_sizes example_set_table_counts m room r(1,2,3)
    by (simp add: live holes)
qed

subsection \<open>EnsureCapacityForAdding leaves room\<close>

lemma Hash_update_simps [simp]:
  "table_sizes_ok v (t\<lparr>Hash := x\<rparr>) = table_sizes_ok v t"
  "table_counts_ok (t\<lparr>Hash := x\<rparr>) = table_counts_ok t"
  "live_entries (t\<lparr>Hash := x\<rparr>) = live_entries t"
  "Capacity (t\<lparr>Hash := x\<rparr>) = Capacity t"
  "UsedCapacity (t\<lparr>Hash := x\<rparr>) = UsedCapacity t"
  by (simp_all add: table_sizes_ok_def table_counts_ok_def live_entries_def Capacity_def
      UsedCapacity_def slot_keys_def used_rows_def)

lemma Rehash_Inr_accepted:
  assumes "host_ok H" "new_capacity \<le> 2 ^ 30" "Rehash H v isolate a new_capacity = Inr r"
  shows "rounded_capacity H new_capacity \<le> MaxCapacity H"
  using assms(3) unfolding Rehash_def Derived_Allocate_in_range[OF assms(1,2)]
  by (auto split: if_splits)

lemma Derived_Rehash_result:
  assumes H: "host_ok H"
    and a: "a < length (heap isolate)"
    and sz: "table_sizes_ok v (heap isolate ! a)"
    and cnt: "table_counts_ok (heap isolate ! a)"
    and c30: "new_capacity \<le> 2 ^ 30"
    and room: "NumberOfElements (heap isolate ! a) < rounded_capacity H new_capacity"
    and r: "Derived_Rehash H v isolate a new_capacity = Inr (isolate1, a1)"
  shows "a1 = length (heap isolate)" "length (heap isolate1) = Suc (length (heap isolate))"
    "hashes isolate1 = hashes isolate"
    "table_sizes_ok v (heap isolate1 ! a1)" "table_counts_ok (heap isolate1 ! a1)"
    "UsedCapacity (heap isolate1 ! a1) < Capacity (heap isolate1 ! a1)"
    "Capacity (heap isolate1 ! a1) \<le> MaxCapacity H"
    "live_entries (heap isolate1 ! a1) = live_entries (heap isolate ! a)"
    "NumberOfDeletedElements (heap isolate1 ! a1) = 0"
proof -
  obtain r' where r': "Rehash H v isolate a new_capacity = Inr r'"
    using r unfolding Derived_Rehash_def by (cases "Rehash H v isolate a new_capacity") auto
  have ok: "rounded_capacity H new_capacity \<le> MaxCapacity H"
    by (rule Rehash_Inr_accepted[OF H c30 r'])
  have room': "NumberOfElements (heap isolate ! a) \<le> rounded_capacity H new_capacity"
    using room by simp
  obtain T NT where res: "Rehash H v isolate a new_capacity =
       Inr (isolate\<lparr>heap := (heap isolate)[a := T] @ [NT]\<rparr>, length (heap isolate))"
    and NT: "live_entries NT = live_entries (heap isolate ! a)"
      "NumberOfElements NT = NumberOfElements (heap isolate ! a)"
      "NumberOfDeletedElements NT = 0"
      "Capacity NT = rounded_capacity H new_capacity"
      "table_sizes_ok v NT" "table_counts_ok NT"
    by (rule Rehash_result[OF H a sz cnt c30 ok room'])
  let ?hp = "(heap isolate)[a := T] @ [NT]"
  let ?na = "length (heap isolate)"
  have na: "?hp ! ?na = NT" "length ?hp = Suc ?na"
    by (simp_all add: nth_append)
  have upd: "?hp[?na := x] ! ?na = x" for x
    by (simp add: list_update_append nth_append)
  have used: "UsedCapacity NT < Capacity NT"
    using NT(2,3,4) room by (simp add: UsedCapacity_def)
  have eq: "a1 = ?na \<and> hashes isolate1 = hashes isolate \<and> length (heap isolate1) = Suc ?na \<and>
      (heap isolate1 ! a1 = NT \<or> heap isolate1 ! a1 = NT\<lparr>Hash := Hash (?hp ! a)\<rparr>)"
    using r unfolding Derived_Rehash_def res
    by (auto simp: na upd nth_append split: if_splits simp del: list_update.simps)
  then show "a1 = length (heap isolate)" "length (heap isolate1) = Suc (length (heap isolate))"
    "hashes isolate1 = hashes isolate"
    by auto
  from eq have "heap isolate1 ! a1 = NT \<or> heap isolate1 ! a1 = NT\<lparr>Hash := Hash (?hp ! a)\<rparr>"
    by blast
  then show "table_sizes_ok v (heap isolate1 ! a1)" "table_counts_ok (heap isolate1 ! a1)"
    "UsedCapacity (heap isolate1 ! a1) < Capacity (heap isolate1 ! a1)"
    "Capacity (heap isolate1 ! a1) \<le> MaxCapacity H"
    "live_entries (heap isolate1 ! a1) = live_entries (heap isolate ! a)"
    "NumberOfDeletedElements (heap isolate1 ! a1) = 0"
    using NT used ok by auto
qed

lemma EnsureCapacityForAdding_result:
  assumes H: "host_ok H"
    and a: "a < length (heap isolate)"
    and sz: "table_sizes_ok v (heap isolate ! a)"
    and cnt: "table_counts_ok (heap isolate ! a)"
    and cap: "Capacity (heap isolate ! a) \<le> MaxCapacity H"
    and r: "EnsureCapacityForAdding H v isolate a = Inr (isolate1, a1)"
  shows "a1 < length (heap isolate1)"
    "hashes isolate1 = hashes isolate"
    "table_sizes_ok v (heap isolate1 ! a1)" "table_counts_ok (heap isolate1 ! a1)"
    "UsedCapacity (heap isolate1 ! a1) < Capacity (heap isolate1 ! a1)"
    "Capacity (heap isolate1 ! a1) \<le> MaxCapacity H"
    "live_entries (heap isolate1 ! a1) = live_entries (heap isolate ! a)"
proof -
  let ?t = "heap isolate ! a"
  let ?cap = "Capacity ?t"
  have all: "a1 < length (heap isolate1) \<and> hashes isolate1 = hashes isolate \<and>
    table_sizes_ok v (heap isolate1 ! a1) \<and> table_counts_ok (heap isolate1 ! a1) \<and>
    UsedCapacity (heap isolate1 ! a1) < Capacity (heap isolate1 ! a1) \<and>
    Capacity (heap isolate1 ! a1) \<le> MaxCapacity H \<and>
    live_entries (heap isolate1 ! a1) = live_entries (heap isolate ! a)"
  proof (cases "NumberOfElements ?t + NumberOfDeletedElements ?t < ?cap")
    case True
    then have "isolate1 = isolate" "a1 = a"
      using r unfolding EnsureCapacityForAdding_unfold by auto
    then show ?thesis
      using a sz cnt cap True by (simp add: UsedCapacity_def)
  next
    case False
    have nn: "0 \<le> NumberOfElements ?t" "0 \<le> NumberOfDeletedElements ?t"
      "NumberOfElements ?t + NumberOfDeletedElements ?t \<le> ?cap" "0 \<le> NumberOfBuckets ?t"
      using sz unfolding table_sizes_ok_def UsedCapacity_def by auto
    have cap2: "?cap = 2 * NumberOfBuckets ?t"
      by (simp add: Capacity_def kLoadFactor_def)
    have m29: "MaxCapacity H \<le> 2 ^ 29"
      using H unfolding host_ok_def by simp
    let ?c = "if ?cap = 0 then kInitialCapacity H
              else if NumberOfDeletedElements ?t \<ge> ?cap div 2 then ?cap else 2 * ?cap"
    have dr: "Derived_Rehash H v isolate a ?c = Inr (isolate1, a1)"
      using r False unfolding EnsureCapacityForAdding_unfold by (auto split: if_splits)
    have c30: "?c \<le> 2 ^ 30"
      using host_ok_kInitialCapacity(2)[OF H] cap m29 by auto
    have ge: "max (kInitialCapacity H) ?c \<le> rounded_capacity H ?c"
      by (rule rounded_capacity_bounds(1))
    have k2: "2 \<le> kInitialCapacity H"
      by (rule host_ok_kInitialCapacity(1)[OF H])
    have room: "NumberOfElements ?t < rounded_capacity H ?c"
    proof (cases "?cap = 0")
      case True
      then show ?thesis using nn ge k2 by auto
    next
      case nz: False
      then have "1 \<le> NumberOfBuckets ?t" using cap2 nn(4) by linarith
      then show ?thesis using nn ge nz cap2 by (auto split: if_splits)
    qed
    from Derived_Rehash_result[OF H a sz cnt c30 room dr]
    show ?thesis by simp
  qed
  then show "a1 < length (heap isolate1)"
    "hashes isolate1 = hashes isolate"
    "table_sizes_ok v (heap isolate1 ! a1)" "table_counts_ok (heap isolate1 ! a1)"
    "UsedCapacity (heap isolate1 ! a1) < Capacity (heap isolate1 ! a1)"
    "Capacity (heap isolate1 ! a1) \<le> MaxCapacity H"
    "live_entries (heap isolate1 ! a1) = live_entries (heap isolate ! a)"
    by auto
qed

subsection \<open>Rehash keeps a table well formed\<close>

lemma wf_large_heap_update [simp]:
  "wf_large H v (isolate\<lparr>heap := hp\<rparr>) t = wf_large H v isolate t"
  by (simp add: wf_large_def)

lemma Rehash_step_live:
  assumes inv: "rehash_inv src nt0 i (T, NT, ne, rh)"
    and i: "i < length (data src)"
    and rows: "\<forall>row \<in> set (data src). length row = entrysize v"
      "\<forall>row \<in> set (data nt0). length row = entrysize v"
    and room: "length (filter (\<lambda>row. \<not> IsTheHole (row ! kKeyIndex)) (take (Suc i) (data src)))
                 \<le> length (data nt0)"
    and live: "\<not> IsTheHole (data src ! i ! kKeyIndex)"
    and h: "hashes isolate (data src ! i ! kKeyIndex) = Some hash"
  shows "Rehash_step v isolate (int i) (T, NT, ne, rh) =
           (T, NT\<lparr>buckets := (buckets NT)[nat (HashToBucket nt0 hash) := int (nat ne)],
                   data := (data NT)[nat ne := data src ! i],
                   chains := (chains NT)[nat ne := buckets NT ! nat (HashToBucket nt0 hash)]\<rparr>,
            int (Suc (nat ne)), rh)"
    "nat ne < length (data nt0)" "length (data NT) = length (data nt0)"
    "NumberOfBuckets NT = NumberOfBuckets nt0"
    "length (buckets NT) = length (buckets nt0)" "length (chains NT) = length (chains nt0)"
proof -
  let ?live = "\<lambda>row. \<not> IsTheHole (row ! kKeyIndex)"
  let ?L = "filter ?live (take i (data src))"
  have T: "T\<lparr>removed := removed src\<rparr> = src"
    and ne: "ne = int (length ?L)"
    and D: "data NT = ?L @ drop (nat ne) (data nt0)"
    and NT: "NT\<lparr>data := data nt0, buckets := buckets nt0, chains := chains nt0\<rparr> = nt0"
    and len: "length (buckets NT) = length (buckets nt0)" "length (chains NT) = length (chains nt0)"
    using inv unfolding rehash_inv_def by auto
  show "length (buckets NT) = length (buckets nt0)" "length (chains NT) = length (chains nt0)"
    by (rule len)+
  have "data (T\<lparr>removed := removed src\<rparr>) = data src"
    using T by simp
  then have dT: "data T = data src" by simp
  have key: "KeyAt T (int i) = data src ! i ! kKeyIndex"
    by (simp add: KeyAt_def get_data_def dT)
  show nb: "NumberOfBuckets NT = NumberOfBuckets nt0"
    using arg_cong[OF NT, of NumberOfBuckets] by simp
  have take_Suc: "take (Suc i) (data src) = take i (data src) @ [data src ! i]"
    using i by (simp add: take_Suc_conv_app_nth)
  let ?n = "length ?L"
  let ?row = "data src ! i"
  have L': "filter ?live (take (Suc i) (data src)) = ?L @ [?row]"
    unfolding take_Suc using live by simp
  have n: "?n < length (data nt0)"
    using room unfolding L' by simp
  have nn: "nat ne = ?n" using ne by simp
  show "nat ne < length (data nt0)"
    unfolding nn by (rule n)
  show lenD: "length (data NT) = length (data nt0)"
    unfolding D nn using n by simp
  have "data NT ! ?n = data nt0 ! ?n"
    unfolding D nn using n by (simp add: nth_append)
  then have row0: "length (data NT ! ?n) = entrysize v"
    using rows(2) n by simp
  have rowi: "length (data T ! nat (int i)) = entrysize v"
    using rows(1) i by (simp add: dT)
  let ?b = "the (GetHash isolate (data src ! i ! kKeyIndex)) AND (NumberOfBuckets NT - 1)"
  have b: "?b = HashToBucket nt0 hash"
    by (simp add: GetHash_def h HashToBucket_def nb)
  let ?NT1 = "set_bucket NT ?b ne"
  have c: "copy_entry v T (int i) ?NT1 (int ?n) = ?NT1\<lparr>data := (data ?NT1)[?n := data T ! nat (int i)]\<rparr>"
    by (rule copy_entry_row) (use rowi row0 n lenD in \<open>simp_all add: set_bucket_def\<close>)
  have "Rehash_step v isolate (int i) (T, NT, ne, rh) =
          (T, NT\<lparr>buckets := (buckets NT)[nat ?b := ne], data := (data NT)[?n := ?row],
                  chains := (chains NT)[?n := get_bucket NT ?b]\<rparr>, int (Suc ?n), rh)"
    unfolding Rehash_step_def using live key c ne
    by (simp add: Let_def set_bucket_def set_chain_def dT)
  then show "Rehash_step v isolate (int i) (T, NT, ne, rh) =
           (T, NT\<lparr>buckets := (buckets NT)[nat (HashToBucket nt0 hash) := int (nat ne)],
                   data := (data NT)[nat ne := data src ! i],
                   chains := (chains NT)[nat ne := buckets NT ! nat (HashToBucket nt0 hash)]\<rparr>,
            int (Suc (nat ne)), rh)"
    unfolding b nn get_bucket_def using ne by simp
qed

lemma Rehash_step_hole:
  assumes inv: "rehash_inv src nt0 i (T, NT, ne, rh)"
    and hole: "IsTheHole (data src ! i ! kKeyIndex)"
  shows "Rehash_step v isolate (int i) (T, NT, ne, rh) =
           (SetRemovedIndexAt T rh (int i), NT, ne, rh + 1)"
proof -
  have T: "T\<lparr>removed := removed src\<rparr> = src"
    using inv unfolding rehash_inv_def by auto
  have "data (T\<lparr>removed := removed src\<rparr>) = data src"
    using T by simp
  then have dT: "data T = data src" by simp
  have key: "KeyAt T (int i) = data src ! i ! kKeyIndex"
    by (simp add: KeyAt_def get_data_def dT)
  show ?thesis
    unfolding Rehash_step_def using hole key by simp
qed

lemma rehash_links_fold:
  assumes rows: "\<forall>row \<in> set (data src). length row = entrysize v"
      "\<forall>row \<in> set (data nt0). length row = entrysize v"
    and nf: "nf < 0"
    and nb: "0 < NumberOfBuckets nt0" "length (buckets nt0) = nat (NumberOfBuckets nt0)"
    and lc: "length (chains nt0) = length (data nt0)"
    and init: "\<forall>b \<in> set (buckets nt0). b = nf"
  shows "i \<le> length (data src) \<Longrightarrow>
    length (filter (\<lambda>row. \<not> IsTheHole (row ! kKeyIndex)) (take i (data src))) \<le> length (data nt0) \<Longrightarrow>
    \<forall>e < i. \<not> IsTheHole (data src ! e ! kKeyIndex) \<longrightarrow>
       hashes isolate (data src ! e ! kKeyIndex) \<noteq> None \<Longrightarrow>
    (case fold (Rehash_step v isolate) (map int [0 ..< i]) (src, nt0, 0, 0) of
       (T, NT, ne, rh) \<Rightarrow>
         links_ok nf (nat ne) (buckets NT) (chains NT) \<and>
         reach_ok (hashes isolate) (HashToBucket nt0) (nat ne) (buckets NT) (chains NT) (data NT))"
proof (induction i)
  case 0
  then show ?case
    using init by (simp add: links_ok_def reach_ok_def)
next
  case (Suc i)
  let ?live = "\<lambda>row. \<not> IsTheHole (row ! kKeyIndex)"
  let ?s = "fold (Rehash_step v isolate) (map int [0 ..< i]) (src, nt0, 0, 0)"
  have mono: "length (filter ?live (take i (data src)))
      \<le> length (filter ?live (take (Suc i) (data src)))"
    by (rule length_filter_take_mono) simp
  have i: "i < length (data src)" "i \<le> length (data src)"
    using Suc.prems(1) by simp_all
  have room_i: "length (filter ?live (take i (data src))) \<le> length (data nt0)"
    using mono Suc.prems(2) by simp
  have inv: "rehash_inv src nt0 i ?s"
    by (rule rehash_inv_fold[OF rows i(2) room_i])
  obtain T NT ne rh where s: "?s = (T, NT, ne, rh)"
    by (cases ?s) auto
  have ih: "links_ok nf (nat ne) (buckets NT) (chains NT)"
    "reach_ok (hashes isolate) (HashToBucket nt0) (nat ne) (buckets NT) (chains NT) (data NT)"
    using Suc.IH[OF i(2) room_i] Suc.prems(3) unfolding s by simp_all
  have f: "fold (Rehash_step v isolate) (map int [0 ..< Suc i]) (src, nt0, 0, 0) =
             Rehash_step v isolate (int i) (T, NT, ne, rh)"
    using s by simp
  show ?case
  proof (cases "IsTheHole (data src ! i ! kKeyIndex)")
    case True
    show ?thesis
      unfolding f Rehash_step_hole[OF inv[unfolded s] True] using ih by simp
  next
    case False
    then obtain hash where h: "hashes isolate (data src ! i ! kKeyIndex) = Some hash"
      using Suc.prems(3) by auto
    note st = Rehash_step_live[OF inv[unfolded s] i(1) rows Suc.prems(2) False h]
    have bk: "\<forall>h. 0 \<le> HashToBucket nt0 h \<and> nat (HashToBucket nt0 h) < length (buckets NT)"
      using HashToBucket_range[OF nb(1)] nb(1) unfolding st(5) nb(2) by auto
    have n: "nat ne < length (chains NT)" "nat ne < length (data NT)"
      using st(2) unfolding st(3,6) lc by simp_all
    have l': "links_ok nf (Suc (nat ne))
        ((buckets NT)[nat (HashToBucket nt0 hash) := int (nat ne)])
        ((chains NT)[nat ne := buckets NT ! nat (HashToBucket nt0 hash)])"
      using bk by (intro links_ok_insert[OF ih(1) _ n(1)]) simp
    have r': "reach_ok (hashes isolate) (HashToBucket nt0) (Suc (nat ne))
        ((buckets NT)[nat (HashToBucket nt0 hash) := int (nat ne)])
        ((chains NT)[nat ne := buckets NT ! nat (HashToBucket nt0 hash)])
        ((data NT)[nat ne := data src ! i])"
      using nf by (intro reach_ok_insert[OF ih(2,1) _ bk n h]) simp
    show ?thesis
      unfolding f st(1) prod.case nat_int using l' r' by (simp del: int_nat_eq)
  qed
qed

lemma Rehash_keeps_well_formed:
  assumes H: "host_ok H"
    and a: "a < length (heap isolate)"
    and wf: "wf_large H v isolate (heap isolate ! a)"
    and c30: "new_capacity \<le> 2 ^ 30"
    and ok: "rounded_capacity H new_capacity \<le> MaxCapacity H"
    and room: "NumberOfElements (heap isolate ! a) \<le> rounded_capacity H new_capacity"
    and r: "Rehash H v isolate a new_capacity = Inr (isolate1, na)"
  shows "wf_large H v isolate1 (heap isolate1 ! na)"
proof -
  let ?src = "heap isolate ! a"
  let ?rc = "rounded_capacity H new_capacity"
  let ?na = "length (heap isolate)"
  let ?nt0 = "derived_fresh_table H v ?rc"
  let ?isolate1 = "isolate\<lparr>heap := heap isolate @ [?nt0]\<rparr>"
  let ?live = "\<lambda>row. \<not> IsTheHole (row ! kKeyIndex)"
  let ?u = "nat (UsedCapacity ?src)"
  have sz: "table_sizes_ok v ?src" and cnt: "table_counts_ok ?src"
    and reach: "reach_ok (hashes isolate) (HashToBucket ?src) ?u (buckets ?src) (chains ?src)
                  (data ?src)"
    using wf unfolding wf_large_def by simp_all
  have alloc: "Derived_Allocate H v isolate new_capacity = Inr (?isolate1, ?na)"
    unfolding Derived_Allocate_in_range[OF H c30] using ok by simp
  have h1: "(heap isolate @ [?nt0]) ! a = ?src" "(heap isolate @ [?nt0]) ! ?na = ?nt0"
    using a by (simp_all add: nth_append)
  have even: "?rc div 2 * 2 = ?rc" and rc2: "2 \<le> ?rc"
    using rounded_capacity_even[OF H] by auto
  have nt0: "data ?nt0 = replicate (nat ?rc) (replicate (entrysize v) TheHole)"
    "buckets ?nt0 = replicate (nat (?rc div 2)) (kNotFound H)" "length (chains ?nt0) = nat ?rc"
    "NumberOfBuckets ?nt0 = ?rc div 2"
    by (simp_all add: derived_fresh_table_def fresh_table_def)
  have u: "?u \<le> length (data ?src)"
    using table_sizes_okD[OF sz] by auto
  have rows: "\<forall>row \<in> set (data ?src). length row = entrysize v"
    using sz unfolding table_sizes_ok_def by simp
  have rows0: "\<forall>row \<in> set (data ?nt0). length row = entrysize v"
    unfolding nt0(1) by simp
  let ?L = "filter ?live (take ?u (data ?src))"
  have L: "?L = live_entries ?src"
    unfolding live_entries_def used_rows_def ..
  have nofL: "NumberOfElements ?src = int (length ?L)"
    unfolding L by (rule NumberOfElements_live[OF sz cnt])
  then have "length ?L \<le> nat ?rc"
    using room by linarith
  then have room': "length ?L \<le> length (data ?nt0)"
    unfolding nt0(1) by simp
  let ?s = "fold (Rehash_step v ?isolate1) (map int [0 ..< ?u]) (?src, ?nt0, 0, 0)"
  have inv: "rehash_inv ?src ?nt0 ?u ?s"
    by (rule rehash_inv_fold[OF rows rows0 u room'])
  obtain T NT ne rh where f: "?s = (T, NT, ne, rh)"
    by (cases ?s) auto
  have T: "T\<lparr>removed := removed ?src\<rparr> = ?src"
    and ne: "ne = int (length ?L)"
    and NT: "NT\<lparr>data := data ?nt0, buckets := buckets ?nt0, chains := chains ?nt0\<rparr> = ?nt0"
    using inv unfolding rehash_inv_def f by auto
  have nbNT: "NumberOfBuckets NT = NumberOfBuckets ?nt0"
    using arg_cong[OF NT, of NumberOfBuckets] by simp
  have nofT: "NumberOfElements T = NumberOfElements ?src"
    using arg_cong[OF T, of NumberOfElements] by simp
  let ?T' = "if 0 < NumberOfBuckets T then T\<lparr>NextTable := Some ?na\<rparr> else T"
  let ?NT' = "NT\<lparr>NumberOfElements := NumberOfElements T\<rparr>"
  have r': "Rehash H v isolate a new_capacity =
       Inr (isolate\<lparr>heap := (heap isolate)[a := ?T'] @ [?NT']\<rparr>, ?na)"
    unfolding Rehash_def alloc using a
    by (simp add: h1 IterateEntries_def f Let_def list_update_append)
  have i1: "isolate1 = isolate\<lparr>heap := (heap isolate)[a := ?T'] @ [?NT']\<rparr>" and na: "na = ?na"
    using r unfolding r' by simp_all
  have at: "heap isolate1 ! na = ?NT'"
    unfolding i1 na by (simp add: nth_append)
  have hs: "hashes isolate1 = hashes isolate"
    unfolding i1 by simp
  obtain T2 NT2 where r2: "Rehash H v isolate a new_capacity =
       Inr (isolate\<lparr>heap := (heap isolate)[a := T2] @ [NT2]\<rparr>, ?na)"
    and NT2: "NumberOfElements NT2 = NumberOfElements ?src" "NumberOfDeletedElements NT2 = 0"
      "Capacity NT2 = ?rc" "table_sizes_ok v NT2" "table_counts_ok NT2"
    by (rule Rehash_result[OF H a sz cnt c30 ok room])
  have "isolate1 = isolate\<lparr>heap := (heap isolate)[a := T2] @ [NT2]\<rparr>"
    using r unfolding r2 by simp
  then have "heap isolate1 ! na = NT2"
    unfolding na by (simp add: nth_append)
  then have basic: "NumberOfElements ?NT' = NumberOfElements ?src"
    "NumberOfDeletedElements ?NT' = 0" "Capacity ?NT' = ?rc"
    "table_sizes_ok v ?NT'" "table_counts_ok ?NT'"
    using NT2 unfolding at by simp_all
  have "UsedCapacity ?NT' = NumberOfElements ?src"
    using basic(1,2) by (simp add: UsedCapacity_def)
  then have used: "nat (UsedCapacity ?NT') = nat ne"
    by (simp only: ne nofL)
  have keys: "\<forall>e < ?u. \<not> IsTheHole (data ?src ! e ! kKeyIndex) \<longrightarrow>
                hashes ?isolate1 (data ?src ! e ! kKeyIndex) \<noteq> None"
    using reach unfolding reach_ok_def by auto
  have nf: "kNotFound H < 0"
    using H unfolding host_ok_def by simp
  have nb: "0 < NumberOfBuckets ?nt0" "length (buckets ?nt0) = nat (NumberOfBuckets ?nt0)"
    "length (chains ?nt0) = length (data ?nt0)" "\<forall>b \<in> set (buckets ?nt0). b = kNotFound H"
    unfolding nt0 using rc2 by simp_all
  have "links_ok (kNotFound H) (nat ne) (buckets NT) (chains NT) \<and>
        reach_ok (hashes ?isolate1) (HashToBucket ?nt0) (nat ne) (buckets NT) (chains NT) (data NT)"
    using rehash_links_fold[OF rows rows0 nf nb u room' keys] unfolding f by simp
  moreover have "HashToBucket ?NT' = HashToBucket ?nt0"
    by (simp add: fun_eq_iff HashToBucket_def nbNT)
  ultimately have "links_ok (kNotFound H) (nat (UsedCapacity ?NT')) (buckets ?NT') (chains ?NT')"
    "reach_ok (hashes isolate1) (HashToBucket ?NT') (nat (UsedCapacity ?NT')) (buckets ?NT')
       (chains ?NT') (data ?NT')"
    unfolding used hs by simp_all
  then show ?thesis
    unfolding wf_large_def at using basic(3,4,5) ok by simp
qed

lemma wf_large_Hash_update [simp]:
  "wf_large H v isolate (t\<lparr>Hash := x\<rparr>) = wf_large H v isolate t"
proof -
  have "HashToBucket (t\<lparr>Hash := x\<rparr>) = HashToBucket t"
    by (simp add: fun_eq_iff HashToBucket_def)
  then show ?thesis
    unfolding wf_large_def by simp
qed

lemma Derived_Rehash_keeps_well_formed:
  assumes H: "host_ok H"
    and a: "a < length (heap isolate)"
    and wf: "wf_large H v isolate (heap isolate ! a)"
    and c30: "new_capacity \<le> 2 ^ 30"
    and room: "NumberOfElements (heap isolate ! a) \<le> rounded_capacity H new_capacity"
    and r: "Derived_Rehash H v isolate a new_capacity = Inr (isolate1, na)"
  shows "wf_large H v isolate1 (heap isolate1 ! na)"
proof -
  obtain i0 n0 where r0: "Rehash H v isolate a new_capacity = Inr (i0, n0)"
    using r unfolding Derived_Rehash_def
    by (cases "Rehash H v isolate a new_capacity") auto
  have ok: "rounded_capacity H new_capacity \<le> MaxCapacity H"
    by (rule Rehash_Inr_accepted[OF H c30 r0])
  have sz: "table_sizes_ok v (heap isolate ! a)" and cnt: "table_counts_ok (heap isolate ! a)"
    using wf unfolding wf_large_def by simp_all
  have w0: "wf_large H v i0 (heap i0 ! n0)"
    by (rule Rehash_keeps_well_formed[OF H a wf c30 ok room r0])
  obtain T NT where "Rehash H v isolate a new_capacity =
       Inr (isolate\<lparr>heap := (heap isolate)[a := T] @ [NT]\<rparr>, length (heap isolate))"
    by (rule Rehash_result[OF H a sz cnt c30 ok room])
  then have n0: "n0 < length (heap i0)"
    using r0 by auto
  have "(isolate1 = i0 \<or> (\<exists>x. isolate1 = i0\<lparr>heap := (heap i0)[n0 := (heap i0 ! n0)\<lparr>Hash := x\<rparr>]\<rparr>))
        \<and> na = n0"
    using r unfolding Derived_Rehash_def r0 by (auto split: if_splits)
  then show ?thesis
    using w0 n0 by auto
qed

subsection \<open>EnsureCapacityForAdding returns the table or rehashes it\<close>

lemma rounded_capacity_power_of_two:
  assumes "host_ok H" "kInitialCapacity H \<le> 2 ^ k"
  shows "rounded_capacity H (2 ^ k) = 2 ^ k"
proof -
  have "2 \<le> kInitialCapacity H"
    by (rule host_ok_kInitialCapacity(1)[OF assms(1)])
  then have "(2::int) \<le> 2 ^ k"
    using assms(2) by simp
  then have k: "1 \<le> k"
    by (cases k) auto
  have n: "nat ((2::int) ^ k) = 2 ^ k"
    by (simp add: nat_power_eq)
  have "floorlog 2 ((2::nat) ^ k - 1) = k"
  proof (rule antisym)
    have "(2::nat) ^ k - 1 < 2 ^ k" by simp
    then show "floorlog 2 ((2::nat) ^ k - 1) \<le> k"
      by (simp add: floorlog_le_iff)
    have "(2::nat) ^ (k - 1) \<le> 2 ^ k - 1"
    proof -
      have "(2::nat) ^ k = 2 * 2 ^ (k - 1)"
        using k by (cases k) auto
      moreover have "(1::nat) \<le> 2 ^ (k - 1)" by simp
      ultimately show ?thesis by linarith
    qed
    then show "k \<le> floorlog 2 ((2::nat) ^ k - 1)"
      by (intro floorlog_geI) auto
  qed
  moreover have "max (kInitialCapacity H) (2 ^ k) = 2 ^ k"
    using assms(2) by simp
  ultimately show ?thesis
    unfolding rounded_capacity_def by (simp add: n)
qed

lemma Derived_Rehash_rehashed_at:
  assumes H: "host_ok H"
    and a: "a < length (heap isolate)"
    and sz: "table_sizes_ok v (heap isolate ! a)"
    and cnt: "table_counts_ok (heap isolate ! a)"
    and c30: "c \<le> 2 ^ 30"
    and room: "NumberOfElements (heap isolate ! a) \<le> rounded_capacity H c"
  shows "rehashed_at H v isolate a c (Derived_Rehash H v isolate a c)"
proof (cases "rounded_capacity H c > MaxCapacity H")
  case True
  then have "Derived_Rehash H v isolate a c = Inl RangeError_kTooManyProperties"
    unfolding Derived_Rehash_def Rehash_def Derived_Allocate_in_range[OF H c30] by simp
  then show ?thesis
    unfolding rehashed_at_def using True by simp
next
  case False
  then have ok: "rounded_capacity H c \<le> MaxCapacity H"
    by simp
  let ?src = "heap isolate ! a"
  let ?na = "length (heap isolate)"
  obtain T NT where r: "Rehash H v isolate a c =
       Inr (isolate\<lparr>heap := (heap isolate)[a := T] @ [NT]\<rparr>, ?na)"
    and T: "T = ?src
           \<lparr>removed := removed T,
            NextTable := (if 0 < NumberOfBuckets ?src then Some ?na else NextTable ?src)\<rparr>"
    and rem: "removed_indices T = hole_slots ?src"
    and NT: "live_entries NT = live_entries ?src"
      "NumberOfElements NT = NumberOfElements ?src"
      "NumberOfDeletedElements NT = 0"
      "Capacity NT = rounded_capacity H c"
      "NextTable NT = None"
      "Hash NT = (if v = NameDictionaryVariant then kNoHashSentinel H else 0)"
      "table_sizes_ok v NT" "table_counts_ok NT"
    by (rule Rehash_result[OF H a sz cnt c30 ok room])
  have nb: "0 < NumberOfBuckets ?src \<longleftrightarrow> NumberOfBuckets ?src \<noteq> 0"
    using sz unfolding table_sizes_ok_def by auto
  define NT' where "NT' = (if v = NameDictionaryVariant then NT\<lparr>Hash := Hash ?src\<rparr> else NT)"
  define isolate1 where "isolate1 = isolate\<lparr>heap := (heap isolate)[a := T] @ [NT']\<rparr>"
  have hT: "Hash T = Hash ?src"
    using arg_cong[OF T, of Hash] by simp
  have at_a: "((heap isolate)[a := T] @ [NT]) ! a = T"
    using a by (simp add: nth_append)
  have at_na: "((heap isolate)[a := T] @ [NT]) ! ?na = NT"
    by (simp add: nth_append)
  have dr: "Derived_Rehash H v isolate a c = Inr (isolate1, ?na)"
    unfolding Derived_Rehash_def r isolate1_def NT'_def
    by (simp add: at_a at_na hT list_update_append)
  have h1: "hashes isolate1 = hashes isolate" "length (heap isolate1) = Suc ?na"
    unfolding isolate1_def by simp_all
  have g_a: "heap isolate1 ! a = T"
    unfolding isolate1_def using a by (simp add: nth_append)
  have g_na: "heap isolate1 ! ?na = NT'"
    unfolding isolate1_def by (simp add: nth_append)
  have g_other: "\<forall>b < ?na. b \<noteq> a \<longrightarrow> heap isolate1 ! b = heap isolate ! b"
    unfolding isolate1_def by (simp add: nth_append)
  have new: "Capacity NT' = rounded_capacity H c" "live_entries NT' = live_entries ?src"
    "NumberOfElements NT' = NumberOfElements ?src" "NumberOfDeletedElements NT' = 0"
    "NextTable NT' = None" "v = NameDictionaryVariant \<longrightarrow> Hash NT' = Hash ?src"
    "table_sizes_ok v NT'" "table_counts_ok NT'"
    unfolding NT'_def using NT by auto
  have "wf_large H v isolate1 (heap isolate1 ! ?na)" if "wf_large H v isolate ?src"
    by (rule Derived_Rehash_keeps_well_formed[OF H a that c30 room dr])
  then have new_wf: "wf_large H v isolate ?src \<longrightarrow> wf_large H v isolate1 NT'"
    unfolding g_na by blast
  have old: "T = ?src\<lparr>removed := removed T,
                   NextTable := (if NumberOfBuckets ?src \<noteq> 0 then Some ?na else NextTable ?src)\<rparr>"
    using T unfolding nb .
  show ?thesis
    unfolding rehashed_at_def if_not_P[OF False]
    by (rule exI[of _ isolate1], unfold g_a g_na)
      (intro conjI dr h1 g_other new new_wf rem old)
qed

text \<open>
  Claim C5. Let the table be well formed in its sizes and counters, with a capacity of at
  most \<open>MaxCapacity\<close> (so that twice the capacity is an \<open>int\<close>). While
  \<open>number_of_elements + number_of_deleted_elements < capacity\<close>,
  \<open>EnsureCapacityForAdding\<close> returns the table it was given and changes nothing.
  Otherwise its result is the table rehashed, in the sense of \<open>rehashed_at\<close>, which
  says what the new table holds and that lookups work on it when they did on the source: at
  \<open>kInitialCapacity\<close> when the capacity is 0, at the same capacity when at least half of
  the slots are tombstones, and at twice the capacity otherwise. The capacity of the new
  table is the requested one rounded up as \<open>Allocate\<close> does, which is the requested one
  itself for \<open>kInitialCapacity\<close> and for a table whose capacity is a power of two that is
  at least \<open>kInitialCapacity\<close>, as the capacity of every table that \<open>Allocate\<close> made is.
\<close>

theorem EnsureCapacityForAdding_returns_or_rehashes:
  assumes "host_ok H" "a < length (heap isolate)"
    and "table_sizes_ok v (heap isolate ! a)" "table_counts_ok (heap isolate ! a)"
    and "Capacity (heap isolate ! a) \<le> MaxCapacity H"
  shows "(NumberOfElements (heap isolate ! a) + NumberOfDeletedElements (heap isolate ! a)
            < Capacity (heap isolate ! a) \<longrightarrow>
          EnsureCapacityForAdding H v isolate a = Inr (isolate, a)) \<and>
         (\<not> NumberOfElements (heap isolate ! a) + NumberOfDeletedElements (heap isolate ! a)
              < Capacity (heap isolate ! a) \<and>
          Capacity (heap isolate ! a) = 0 \<longrightarrow>
          rehashed_at H v isolate a (kInitialCapacity H) (EnsureCapacityForAdding H v isolate a)) \<and>
         (\<not> NumberOfElements (heap isolate ! a) + NumberOfDeletedElements (heap isolate ! a)
              < Capacity (heap isolate ! a) \<and>
          Capacity (heap isolate ! a) \<noteq> 0 \<and>
          NumberOfDeletedElements (heap isolate ! a) \<ge> Capacity (heap isolate ! a) div 2 \<longrightarrow>
          rehashed_at H v isolate a (Capacity (heap isolate ! a))
            (EnsureCapacityForAdding H v isolate a)) \<and>
         (\<not> NumberOfElements (heap isolate ! a) + NumberOfDeletedElements (heap isolate ! a)
              < Capacity (heap isolate ! a) \<and>
          Capacity (heap isolate ! a) \<noteq> 0 \<and>
          NumberOfDeletedElements (heap isolate ! a) < Capacity (heap isolate ! a) div 2 \<longrightarrow>
          rehashed_at H v isolate a (2 * Capacity (heap isolate ! a))
            (EnsureCapacityForAdding H v isolate a)) \<and>
         rounded_capacity H (kInitialCapacity H) = kInitialCapacity H \<and>
         ((\<exists>k. Capacity (heap isolate ! a) = 2 ^ k) \<and>
          kInitialCapacity H \<le> Capacity (heap isolate ! a) \<longrightarrow>
          rounded_capacity H (Capacity (heap isolate ! a)) = Capacity (heap isolate ! a) \<and>
          rounded_capacity H (2 * Capacity (heap isolate ! a)) = 2 * Capacity (heap isolate ! a))"
proof -
  let ?t = "heap isolate ! a"
  let ?cap = "Capacity ?t"
  let ?full = "\<not> NumberOfElements ?t + NumberOfDeletedElements ?t < ?cap"
  have nn: "0 \<le> NumberOfElements ?t" "0 \<le> NumberOfDeletedElements ?t"
    "NumberOfElements ?t + NumberOfDeletedElements ?t \<le> ?cap" "0 \<le> NumberOfBuckets ?t"
    using assms(3) unfolding table_sizes_ok_def UsedCapacity_def by auto
  have cap2: "?cap = 2 * NumberOfBuckets ?t"
    by (simp add: Capacity_def kLoadFactor_def)
  have m29: "MaxCapacity H \<le> 2 ^ 29"
    using assms(1) unfolding host_ok_def by simp
  have k2: "2 \<le> kInitialCapacity H" "kInitialCapacity H \<le> 2 ^ 30"
    by (rule host_ok_kInitialCapacity[OF assms(1)])+
  have ge: "max (kInitialCapacity H) c \<le> rounded_capacity H c" for c
    by (rule rounded_capacity_bounds(1))
  have room: "EnsureCapacityForAdding H v isolate a = Inr (isolate, a)"
    if "NumberOfElements ?t + NumberOfDeletedElements ?t < ?cap"
    unfolding EnsureCapacityForAdding_unfold using that by simp
  have empty: "rehashed_at H v isolate a (kInitialCapacity H) (EnsureCapacityForAdding H v isolate a)"
    if "?full" "?cap = 0"
  proof -
    have "EnsureCapacityForAdding H v isolate a = Derived_Rehash H v isolate a (kInitialCapacity H)"
      unfolding EnsureCapacityForAdding_unfold using that by simp
    moreover have "NumberOfElements ?t \<le> rounded_capacity H (kInitialCapacity H)"
      using nn that ge[of "kInitialCapacity H"] k2 by simp
    ultimately show ?thesis
      using Derived_Rehash_rehashed_at[OF assms(1-4) k2(2)] by simp
  qed
  have same: "rehashed_at H v isolate a ?cap (EnsureCapacityForAdding H v isolate a)"
    if "?full" "?cap \<noteq> 0" "NumberOfDeletedElements ?t \<ge> ?cap div 2"
  proof -
    have "EnsureCapacityForAdding H v isolate a = Derived_Rehash H v isolate a ?cap"
      unfolding EnsureCapacityForAdding_unfold using that by simp
    moreover have "NumberOfElements ?t \<le> rounded_capacity H ?cap"
      using nn ge[of ?cap] by simp
    moreover have "?cap \<le> 2 ^ 30"
      using assms(5) m29 by simp
    ultimately show ?thesis
      using Derived_Rehash_rehashed_at[OF assms(1-4), of ?cap] by simp
  qed
  have twice: "rehashed_at H v isolate a (2 * ?cap) (EnsureCapacityForAdding H v isolate a)"
    if "?full" "?cap \<noteq> 0" "NumberOfDeletedElements ?t < ?cap div 2"
  proof -
    have "EnsureCapacityForAdding H v isolate a = Derived_Rehash H v isolate a (2 * ?cap)"
      unfolding EnsureCapacityForAdding_unfold using that by simp
    moreover have "NumberOfElements ?t \<le> rounded_capacity H (2 * ?cap)"
      using nn ge[of "2 * ?cap"] by simp
    moreover have "2 * ?cap \<le> 2 ^ 30"
      using assms(5) m29 by simp
    ultimately show ?thesis
      using Derived_Rehash_rehashed_at[OF assms(1-4), of "2 * ?cap"] by simp
  qed
  have pow: "rounded_capacity H ?cap = ?cap \<and> rounded_capacity H (2 * ?cap) = 2 * ?cap"
    if "(\<exists>k. ?cap = 2 ^ k) \<and> kInitialCapacity H \<le> ?cap"
  proof -
    from that obtain k where k1: "?cap = 2 ^ k"
      by blast
    have k: "?cap = 2 ^ k" "kInitialCapacity H \<le> 2 ^ k"
      using that k1 by simp_all
    have "(2::int) ^ k \<le> 2 ^ Suc k"
      by simp
    with k(2) have "kInitialCapacity H \<le> 2 ^ Suc k"
      by (rule order_trans)
    from rounded_capacity_power_of_two[OF assms(1) k(2)]
      rounded_capacity_power_of_two[OF assms(1) this]
    show ?thesis
      unfolding k(1) by simp
  qed
  show ?thesis
    using room empty same twice pow rounded_capacity_kInitialCapacity[OF assms(1)]
    by blast
qed

lemma example_full_table_sizes:
  "table_sizes_ok SetVariant example_full_table" "table_counts_ok example_full_table"
  unfolding table_sizes_ok_def table_counts_ok_def slot_keys_def used_rows_def
    example_full_table_def
  by (simp_all add: Capacity_def UsedCapacity_def kLoadFactor_def entrysize_def kKeyIndex_def
      IsTheHole_def)

lemma example_full_table_wf:
  "wf_large example_host SetVariant (example_isolate hp) example_full_table"
proof -
  have c: "chain_of [- 1, 0, - 1, 1] 3 = [3, 1, 0]" "chain_of [- 1, 0, - 1, 1] 2 = [2]"
    by (simp_all add: chain_of.simps[of _ 3] chain_of.simps[of _ 2] chain_of.simps[of _ 1]
        chain_of.simps[of _ 0] chain_of.simps[of _ "- 1"])
  have a4: "(\<forall>e < (4::nat). P e) \<longleftrightarrow> P 0 \<and> P 1 \<and> P 2 \<and> P 3" for P
    by (simp add: eval_nat_numeral less_Suc_eq all_conj_distrib imp_disjL)
  have "links_ok (kNotFound example_host) (nat (UsedCapacity example_full_table))
      (buckets example_full_table) (chains example_full_table)"
    by (simp add: links_ok_def example_full_table_def UsedCapacity_def example_host_def
        a4)
  moreover have "reach_ok (hashes (example_isolate hp)) (HashToBucket example_full_table)
      (nat (UsedCapacity example_full_table)) (buckets example_full_table)
      (chains example_full_table) (data example_full_table)"
    by (simp add: reach_ok_def example_full_table_def UsedCapacity_def a4
        example_isolate_def kKeyIndex_def IsTheHole_def HashToBucket_def c)
  moreover have "Capacity example_full_table \<le> MaxCapacity example_host"
    by (simp add: Capacity_def example_full_table_def example_host_def kLoadFactor_def)
  ultimately show ?thesis
    unfolding wf_large_def using example_full_table_sizes by simp
qed

theorem EnsureCapacityForAdding_returns_or_rehashes_witness:
  "host_ok example_host \<and>
   0 < length (heap (example_isolate [example_full_table])) \<and>
   table_sizes_ok SetVariant example_full_table \<and> table_counts_ok example_full_table \<and>
   Capacity example_full_table \<le> MaxCapacity example_host \<and>
   \<not> NumberOfElements example_full_table + NumberOfDeletedElements example_full_table
       < Capacity example_full_table \<and>
   Capacity example_full_table \<noteq> 0 \<and>
   NumberOfDeletedElements example_full_table < Capacity example_full_table div 2 \<and>
   wf_large example_host SetVariant (example_isolate [example_full_table]) example_full_table \<and>
   (\<exists>isolate1.
      EnsureCapacityForAdding example_host SetVariant (example_isolate [example_full_table]) 0 =
        Inr (isolate1, 1) \<and>
      wf_large example_host SetVariant isolate1 (heap isolate1 ! 1) \<and>
      Capacity (heap isolate1 ! 1) = 8 \<and>
      live_entries (heap isolate1 ! 1) = [[Smi 1], [Smi 2], [Smi 3]] \<and>
      NumberOfElements (heap isolate1 ! 1) = 3 \<and>
      NumberOfDeletedElements (heap isolate1 ! 1) = 0 \<and>
      removed_indices (heap isolate1 ! 0) = [1] \<and>
      NextTable (heap isolate1 ! 0) = Some 1) \<and>
   EnsureCapacityForAdding example_host SetVariant (example_isolate [example_set_table]) 0 =
     Inr (example_isolate [example_set_table], 0)"
proof -
  let ?isolate = "example_isolate [example_full_table]"
  have a: "0 < length (heap ?isolate)"
    by simp
  have sz: "table_sizes_ok SetVariant (heap ?isolate ! 0)" "table_counts_ok (heap ?isolate ! 0)"
    using example_full_table_sizes by simp_all
  have cap: "Capacity example_full_table = 4"
    by (simp add: Capacity_def example_full_table_def kLoadFactor_def)
  have cnt: "NumberOfElements example_full_table = 3" "NumberOfDeletedElements example_full_table = 1"
    "NumberOfBuckets example_full_table \<noteq> 0"
    by (simp_all add: example_full_table_def)
  have m: "Capacity (heap ?isolate ! 0) \<le> MaxCapacity example_host"
    by (simp add: cap example_host_def)
  have p2: "\<exists>k. (4::int) = 2 ^ k"
    by (rule exI[of _ 2]) simp
  have k: "kInitialCapacity example_host = 4" "\<not> MaxCapacity example_host < 8"
    by (simp_all add: example_host_def)
  have live: "live_entries example_full_table = [[Smi 1], [Smi 2], [Smi 3]]"
    by (simp add: live_entries_def used_rows_def example_full_table_def UsedCapacity_def
        kKeyIndex_def IsTheHole_def)
  have holes: "hole_slots example_full_table = [1]"
    by (simp add: hole_slots_def example_full_table_def UsedCapacity_def upt_numerals
        KeyAt_def get_data_def kKeyIndex_def IsTheHole_def)
  note t = EnsureCapacityForAdding_returns_or_rehashes[OF host_ok_example a sz m]
  have r8: "rounded_capacity example_host 8 = 8"
    using t p2 by (simp add: cap k)
  have "rehashed_at example_host SetVariant ?isolate 0 8
          (EnsureCapacityForAdding example_host SetVariant ?isolate 0)"
    using t by (simp add: cap cnt)
  then obtain isolate1 where raw:
    "EnsureCapacityForAdding example_host SetVariant ?isolate 0 =
       Inr (isolate1, length (heap ?isolate))"
    "wf_large example_host SetVariant ?isolate (heap ?isolate ! 0) \<longrightarrow>
       wf_large example_host SetVariant isolate1 (heap isolate1 ! length (heap ?isolate))"
    "Capacity (heap isolate1 ! length (heap ?isolate)) = 8"
    "live_entries (heap isolate1 ! length (heap ?isolate)) = live_entries (heap ?isolate ! 0)"
    "NumberOfElements (heap isolate1 ! length (heap ?isolate)) =
       NumberOfElements (heap ?isolate ! 0)"
    "NumberOfDeletedElements (heap isolate1 ! length (heap ?isolate)) = 0"
    "removed_indices (heap isolate1 ! 0) = hole_slots (heap ?isolate ! 0)"
    "heap isolate1 ! 0 =
       (heap ?isolate ! 0)
         \<lparr>removed := removed (heap isolate1 ! 0),
          NextTable := (if NumberOfBuckets (heap ?isolate ! 0) \<noteq> 0
                        then Some (length (heap ?isolate))
                        else NextTable (heap ?isolate ! 0))\<rparr>"
    unfolding rehashed_at_def r8 if_not_P[OF k(2)] by blast
  have r: "EnsureCapacityForAdding example_host SetVariant ?isolate 0 = Inr (isolate1, 1)"
    "Capacity (heap isolate1 ! 1) = 8"
    "live_entries (heap isolate1 ! 1) = live_entries example_full_table"
    "NumberOfElements (heap isolate1 ! 1) = NumberOfElements example_full_table"
    "NumberOfDeletedElements (heap isolate1 ! 1) = 0"
    "removed_indices (heap isolate1 ! 0) = hole_slots example_full_table"
    using raw(1,3-7) by simp_all
  have r_wf: "wf_large example_host SetVariant isolate1 (heap isolate1 ! 1)"
    using raw(2) example_full_table_wf[of "[example_full_table]"] by simp
  have "NextTable (heap isolate1 ! 0) = Some 1"
    using arg_cong[OF raw(8), of NextTable] by (simp add: cnt)
  then have "\<exists>isolate1.
      EnsureCapacityForAdding example_host SetVariant ?isolate 0 = Inr (isolate1, 1) \<and>
      wf_large example_host SetVariant isolate1 (heap isolate1 ! 1) \<and>
      Capacity (heap isolate1 ! 1) = 8 \<and>
      live_entries (heap isolate1 ! 1) = [[Smi 1], [Smi 2], [Smi 3]] \<and>
      NumberOfElements (heap isolate1 ! 1) = 3 \<and>
      NumberOfDeletedElements (heap isolate1 ! 1) = 0 \<and>
      removed_indices (heap isolate1 ! 0) = [1] \<and>
      NextTable (heap isolate1 ! 0) = Some 1"
    using r(1-6) r_wf by (simp add: live holes cnt)
  moreover have "EnsureCapacityForAdding example_host SetVariant
       (example_isolate [example_set_table]) 0 = Inr (example_isolate [example_set_table], 0)"
    unfolding EnsureCapacityForAdding_unfold
    by (simp add: example_set_table_def Capacity_def kLoadFactor_def)
  ultimately show ?thesis
    using host_ok_example example_full_table_sizes example_full_table_wf
    by (simp add: cap cnt example_host_def)
qed

subsection \<open>Add of the large form\<close>

lemma wf_large_buckets:
  assumes "wf_large H v isolate t" "0 < NumberOfElements t"
  shows "0 < NumberOfBuckets t"
    "\<forall>h. 0 \<le> HashToBucket t h \<and> nat (HashToBucket t h) < length (buckets t)"
    "HashToEntryRaw t h \<in> set (buckets t)"
proof -
  have sz: "table_sizes_ok v t"
    using assms(1) unfolding wf_large_def by simp
  then have "0 < Capacity t"
    using assms(2) unfolding table_sizes_ok_def UsedCapacity_def by linarith
  then show nb: "0 < NumberOfBuckets t"
    unfolding Capacity_def kLoadFactor_def by simp
  show bk: "\<forall>h. 0 \<le> HashToBucket t h \<and> nat (HashToBucket t h) < length (buckets t)"
    using HashToBucket_range[OF nb] table_sizes_okD(4)[OF sz] nb by (simp add: nat_less_iff)
  show "HashToEntryRaw t h \<in> set (buckets t)"
    unfolding HashToEntryRaw_def get_bucket_def using bk by (intro nth_mem) simp
qed

lemma large_lookup_absent:
  assumes "host_ok H" "wf_large H v isolate t" "key \<noteq> TheHole" "\<not> contains_key H t key"
  shows "(if NumberOfElements t > 0
          then FindInChain (kNotFound H) (SameValueZero H) t key (HashToEntryRaw t hash)
          else Some NotFound) = Some NotFound"
proof (cases "NumberOfElements t > 0")
  case True
  have "FindInChain (kNotFound H) (SameValueZero H) t key (HashToEntryRaw t hash) = Some NotFound"
  proof (rule walk_absent[where v = v])
    show "table_sizes_ok v t"
      "links_ok (kNotFound H) (nat (UsedCapacity t)) (buckets t) (chains t)"
      using assms(2) unfolding wf_large_def by auto
    show "kNotFound H < 0 \<or> int (length (chains t)) \<le> kNotFound H"
      "\<forall>k. SameValueZero H TheHole k \<longrightarrow> k = TheHole"
      using assms(1) unfolding host_ok_def by auto
    show "key \<noteq> TheHole" "\<not> contains_key H t key"
      by fact+
    show "HashToEntryRaw t hash \<in> set (buckets t)"
      by (rule wf_large_buckets(3)[OF assms(2) True])
  qed
  then show ?thesis using True by simp
next
  case False
  then show ?thesis by simp
qed

lemma contains_key_live:
  assumes "table_sizes_ok v t" "table_counts_ok t" "contains_key H t key"
  shows "0 < NumberOfElements t"
proof -
  have "live_entries t \<noteq> []"
    using assms(3) unfolding contains_key_def live_keys_def by auto
  then show ?thesis
    unfolding NumberOfElements_live[OF assms(1,2)] by simp
qed

lemma large_lookup_present:
  assumes "host_ok H" "hash_ok H isolate" "wf_large H v isolate t" "contains_key H t key"
  shows "\<exists>h e. hashes isolate key = Some h \<and> 0 < NumberOfElements t \<and>
           FindInChain (kNotFound H) (SameValueZero H) t key (HashToEntryRaw t h) = Some (Entry e)"
proof -
  have sz: "table_sizes_ok v t" and cnt: "table_counts_ok t"
    and l: "links_ok (kNotFound H) (nat (UsedCapacity t)) (buckets t) (chains t)"
    and r: "reach_ok (hashes isolate) (HashToBucket t) (nat (UsedCapacity t)) (buckets t) (chains t) (data t)"
    using assms(3) unfolding wf_large_def by auto
  have nof: "0 < NumberOfElements t"
    by (rule contains_key_live[OF sz cnt assms(4)])
  have nf: "kNotFound H < 0 \<or> int (length (chains t)) \<le> kNotFound H"
    using assms(1) unfolding host_ok_def by auto
  have hs: "\<forall>a b. SameValueZero H a b \<longrightarrow> hashes isolate a = hashes isolate b"
    using assms(2) unfolding hash_ok_def by blast
  from walk_present[OF sz l nf r hs wf_large_buckets(2)[OF assms(3) nof] assms(4)]
  show ?thesis
    using nof unfolding HashToEntryRaw_def get_bucket_def by blast
qed

lemma OrderedHashSet_Add_present:
  assumes "host_ok H" "hash_ok H isolate" "wf_large H SetVariant isolate (heap isolate ! a)"
    "contains_key H (heap isolate ! a) key"
  shows "OrderedHashSet_Add H isolate a key = Some (Inr (isolate, a))"
proof -
  obtain h e where h: "hashes isolate key = Some h" "0 < NumberOfElements (heap isolate ! a)"
    "FindInChain (kNotFound H) (SameValueZero H) (heap isolate ! a) key
       (HashToEntryRaw (heap isolate ! a) h) = Some (Entry e)"
    using large_lookup_present[OF assms] by blast
  show ?thesis
    unfolding OrderedHashSet_Add_def GetOrCreateHash_existing[OF h(1)] using h(2,3) by simp
qed

lemma OrderedHashMap_Add_present:
  assumes "host_ok H" "hash_ok H isolate" "wf_large H MapVariant isolate (heap isolate ! a)"
    "contains_key H (heap isolate ! a) key"
  shows "OrderedHashMap_Add H isolate a key val = Some (Inr (isolate, a))"
proof -
  obtain h e where h: "hashes isolate key = Some h" "0 < NumberOfElements (heap isolate ! a)"
    "FindInChain (kNotFound H) (SameValueZero H) (heap isolate ! a) key
       (HashToEntryRaw (heap isolate ! a) h) = Some (Entry e)"
    using large_lookup_present[OF assms] by blast
  show ?thesis
    unfolding OrderedHashMap_Add_def GetOrCreateHash_existing[OF h(1)] using h(2,3) by simp
qed


lemma list_update_row_twice:
  "xs[n := (xs[n := a] ! n)[i := x]] = xs[n := a[i := x]]"
  "xs[n := (xs[n := a] ! n)[i := x, j := y]] = xs[n := a[i := x, j := y]]"
  by (cases "n < length xs"; simp add: list_update_beyond)+

lemma OrderedHashSet_Add_absent:
  assumes "host_ok H" "wf_large H SetVariant isolate (heap isolate ! a)"
    and "key \<noteq> TheHole" "\<not> contains_key H (heap isolate ! a) key"
    and g: "GetOrCreateHash H isolate key = (hash, isolate0)"
  shows "OrderedHashSet_Add H isolate a key =
           (case EnsureCapacityForAdding H SetVariant isolate0 a of
              Inl e \<Rightarrow> Some (Inl e)
            | Inr (isolate1, a1) \<Rightarrow>
                Some (Inr (isolate1\<lparr>heap := (heap isolate1)
                   [a1 := insert_entry (heap isolate1 ! a1) (HashToBucket (heap isolate1 ! a1) hash)
                            ((data (heap isolate1 ! a1) ! nat (UsedCapacity (heap isolate1 ! a1)))
                               [kKeyIndex := key])]\<rparr>, a1)))"
proof -
  have hp: "heap isolate0 = heap isolate"
    by (rule GetOrCreateHash_result(2)[OF g])
  have look: "(if NumberOfElements (heap isolate0 ! a) > 0
          then FindInChain (kNotFound H) (SameValueZero H) (heap isolate0 ! a) key
                 (HashToEntryRaw (heap isolate0 ! a) hash)
          else Some NotFound) = Some NotFound"
    unfolding hp by (rule large_lookup_absent[OF assms(1-4)])
  show ?thesis
    unfolding OrderedHashSet_Add_def g prod.case look
    by (simp add: Let_def insert_entry_def set_data_def set_chain_def set_bucket_def
        HashToEntryRaw_def UsedCapacity_def get_bucket_def split: sum.splits)
qed

lemma OrderedHashMap_Add_absent:
  assumes "host_ok H" "wf_large H MapVariant isolate (heap isolate ! a)"
    and "key \<noteq> TheHole" "\<not> contains_key H (heap isolate ! a) key"
    and g: "GetOrCreateHash H isolate key = (hash, isolate0)"
  shows "OrderedHashMap_Add H isolate a key val =
           (case EnsureCapacityForAdding H MapVariant isolate0 a of
              Inl e \<Rightarrow> Some (Inl e)
            | Inr (isolate1, a1) \<Rightarrow>
                Some (Inr (isolate1\<lparr>heap := (heap isolate1)
                   [a1 := insert_entry (heap isolate1 ! a1) (HashToBucket (heap isolate1 ! a1) hash)
                            ((data (heap isolate1 ! a1) ! nat (UsedCapacity (heap isolate1 ! a1)))
                               [kKeyIndex := key, kValueOffset := val])]\<rparr>, a1)))"
proof -
  have hp: "heap isolate0 = heap isolate"
    by (rule GetOrCreateHash_result(2)[OF g])
  have look: "(if NumberOfElements (heap isolate0 ! a) > 0
          then FindInChain (kNotFound H) (SameValueZero H) (heap isolate0 ! a) key
                 (HashToEntryRaw (heap isolate0 ! a) hash)
          else Some NotFound) = Some NotFound"
    unfolding hp by (rule large_lookup_absent[OF assms(1-4)])
  show ?thesis
    unfolding OrderedHashMap_Add_def g prod.case look
    by (simp add: Let_def insert_entry_def set_data_def set_chain_def set_bucket_def
        HashToEntryRaw_def UsedCapacity_def get_bucket_def list_update_row_twice
        split: sum.splits)
qed

lemma OrderedNameDictionary_Add_result:
  "OrderedNameDictionary_Add H isolate a key val details =
     (case EnsureCapacityForAdding H NameDictionaryVariant isolate a of
        Inl e \<Rightarrow> Some (Inl e)
      | Inr (isolate1, a1) \<Rightarrow>
          Some (Inr (isolate1\<lparr>heap := (heap isolate1)
             [a1 := insert_entry (heap isolate1 ! a1)
                      (HashToBucket (heap isolate1 ! a1) (NameHash H key))
                      ((data (heap isolate1 ! a1) ! nat (UsedCapacity (heap isolate1 ! a1)))
                         [kKeyIndex := key, kValueOffset := val,
                          kPropertyDetailsOffset := details])]\<rparr>, a1)))"
  unfolding OrderedNameDictionary_Add_def
  by (simp add: Let_def insert_entry_def set_data_def set_chain_def set_bucket_def
      HashToEntryRaw_def UsedCapacity_def get_bucket_def list_update_row_twice
      split: sum.splits)

subsection \<open>Rehash and Grow of the small form\<close>

lemma small_rehash_inv_step:
  assumes inv: "small_rehash_inv src nt0 i s"
    and i: "i < length (data src)"
    and rows: "\<forall>row \<in> set (data src). length row = entrysize v"
      "\<forall>row \<in> set (data nt0). length row = entrysize v"
    and room: "length (filter (\<lambda>row. \<not> IsTheHole (row ! kKeyIndex)) (take (Suc i) (data src)))
                 \<le> length (data nt0)"
  shows "small_rehash_inv src nt0 (Suc i) (Small_Rehash_step v isolate src (int i) s)"
proof -
  let ?live = "\<lambda>row. \<not> IsTheHole (row ! kKeyIndex)"
  obtain NT ne where s: "s = (NT, ne)"
    by (cases s) auto
  let ?L = "filter ?live (take i (data src))"
  have ne: "ne = int (length ?L)"
    and D: "data NT = ?L @ drop (nat ne) (data nt0)"
    and NT: "NT\<lparr>data := data nt0, buckets := buckets nt0, chains := chains nt0\<rparr> = nt0"
    and len: "length (buckets NT) = length (buckets nt0)" "length (chains NT) = length (chains nt0)"
    using inv unfolding small_rehash_inv_def s by auto
  have key: "KeyAt src (int i) = data src ! i ! kKeyIndex"
    by (simp add: KeyAt_def get_data_def)
  have take_Suc: "take (Suc i) (data src) = take i (data src) @ [data src ! i]"
    using i by (simp add: take_Suc_conv_app_nth)
  show ?thesis
  proof (cases "IsTheHole (data src ! i ! kKeyIndex)")
    case True
    have step: "Small_Rehash_step v isolate src (int i) s = (NT, ne)"
      unfolding Small_Rehash_step_def s using True key by simp
    have "filter ?live (take (Suc i) (data src)) = ?L"
      unfolding take_Suc using True by simp
    then show ?thesis
      unfolding small_rehash_inv_def step using ne D NT len by simp
  next
    case False
    let ?n = "length ?L"
    let ?row = "data src ! i"
    have L': "filter ?live (take (Suc i) (data src)) = ?L @ [?row]"
      unfolding take_Suc using False by simp
    have n: "?n < length (data nt0)"
      using room unfolding L' by simp
    have nn: "nat ne = ?n" using ne by simp
    have lenD: "length (data NT) = length (data nt0)"
      unfolding D nn using n by simp
    have "data NT ! ?n = data nt0 ! ?n"
      unfolding D nn using n by (simp add: nth_append)
    then have row0: "length (data NT ! ?n) = entrysize v"
      using rows(2) n by simp
    have rowi: "length (data src ! nat (int i)) = entrysize v"
      using rows(1) i by simp
    let ?b = "Small_HashToBucket NT (the (GetHash isolate (data src ! i ! kKeyIndex)))"
    let ?NT1 = "set_chain (set_bucket NT ?b ne) ne (get_bucket NT ?b)"
    have c: "copy_entry v src (int i) ?NT1 (int ?n) = ?NT1\<lparr>data := (data ?NT1)[?n := data src ! nat (int i)]\<rparr>"
      by (rule copy_entry_row) (use rowi row0 n lenD in \<open>simp_all add: set_bucket_def set_chain_def\<close>)
    let ?NT' = "NT\<lparr>buckets := (buckets NT)[nat ?b := ne],
                  chains := (chains NT)[?n := get_bucket NT ?b], data := (data NT)[?n := ?row]\<rparr>"
    have step: "Small_Rehash_step v isolate src (int i) s = (?NT', int (Suc ?n))"
      unfolding Small_Rehash_step_def s using False key c ne
      by (simp add: Let_def set_bucket_def set_chain_def)
    have "(data NT)[?n := ?row] = (?L @ [?row]) @ drop (Suc ?n) (data nt0)"
    proof -
      have "(data NT)[?n := ?row] = ?L @ (drop ?n (data nt0))[0 := ?row]"
        unfolding D nn by (simp add: list_update_append)
      also have "(drop ?n (data nt0))[0 := ?row] = ?row # drop (Suc ?n) (data nt0)"
        using n by (simp add: Cons_nth_drop_Suc[symmetric])
      finally show ?thesis by simp
    qed
    moreover have "nat (1 + int ?n) = Suc ?n" by simp
    moreover have "?NT'\<lparr>data := data nt0, buckets := buckets nt0, chains := chains nt0\<rparr> = nt0"
      using NT by simp
    ultimately show ?thesis
      unfolding small_rehash_inv_def step L' using len by simp
  qed
qed

lemma small_rehash_inv_fold:
  assumes "\<forall>row \<in> set (data src). length row = entrysize v"
    "\<forall>row \<in> set (data nt0). length row = entrysize v"
    "i \<le> length (data src)"
    "length (filter (\<lambda>row. \<not> IsTheHole (row ! kKeyIndex)) (take i (data src))) \<le> length (data nt0)"
  shows "small_rehash_inv src nt0 i (fold (Small_Rehash_step v isolate src) (map int [0 ..< i]) (nt0, 0))"
  using assms(3,4)
proof (induction i)
  case 0
  then show ?case by (simp add: small_rehash_inv_def)
next
  case (Suc i)
  have "length (filter (\<lambda>row. \<not> IsTheHole (row ! kKeyIndex)) (take i (data src)))
      \<le> length (filter (\<lambda>row. \<not> IsTheHole (row ! kKeyIndex)) (take (Suc i) (data src)))"
    by (rule length_filter_take_mono) simp
  then have ih: "small_rehash_inv src nt0 i
      (fold (Small_Rehash_step v isolate src) (map int [0 ..< i]) (nt0, 0))"
    using Suc by simp
  have "i < length (data src)" using Suc.prems by simp
  from small_rehash_inv_step[OF ih this assms(1,2) Suc.prems(2), of isolate]
  show ?case by simp
qed

lemma Small_Derived_Rehash_result:
  assumes sz: "table_sizes_ok v src" and cnt: "table_counts_ok src"
    and c: "0 \<le> k" "new_capacity = 2 * k"
    and room: "NumberOfElements src \<le> new_capacity"
  shows "table_sizes_ok v (Small_Derived_Rehash H v isolate src new_capacity)"
    "table_counts_ok (Small_Derived_Rehash H v isolate src new_capacity)"
    "live_entries (Small_Derived_Rehash H v isolate src new_capacity) = live_entries src"
    "NumberOfElements (Small_Derived_Rehash H v isolate src new_capacity) = NumberOfElements src"
    "NumberOfDeletedElements (Small_Derived_Rehash H v isolate src new_capacity) = 0"
    "Capacity (Small_Derived_Rehash H v isolate src new_capacity) = new_capacity"
proof -
  let ?nt0 = "Small_Allocate H v new_capacity"
  let ?live = "\<lambda>row. \<not> IsTheHole (row ! kKeyIndex)"
  let ?u = "nat (UsedCapacity src)"
  have half: "new_capacity sdiv 2 = k"
    using c by (simp add: signed_divide_int_def sgn_if)
  have nt0: "data ?nt0 = replicate (nat new_capacity) (replicate (entrysize v) TheHole)"
    "length (buckets ?nt0) = nat k" "length (chains ?nt0) = nat new_capacity"
    "NumberOfBuckets ?nt0 = k" "NumberOfDeletedElements ?nt0 = 0"
    by (simp_all add: Small_Allocate_def Initialize_def Let_def kLoadFactor_def half)
  have u: "?u \<le> length (data src)"
    using table_sizes_okD[OF sz] by auto
  have rows: "\<forall>row \<in> set (data src). length row = entrysize v"
    using sz unfolding table_sizes_ok_def by simp
  have rows0: "\<forall>row \<in> set (data ?nt0). length row = entrysize v"
    unfolding nt0(1) by simp
  let ?L = "filter ?live (take ?u (data src))"
  have L: "?L = live_entries src"
    unfolding live_entries_def used_rows_def ..
  have nofL: "NumberOfElements src = int (length ?L)"
    unfolding L by (rule NumberOfElements_live[OF sz cnt])
  then have lenL: "length ?L \<le> nat new_capacity" and lenL_int: "int (length ?L) \<le> new_capacity"
    using room by linarith+
  then have room': "length ?L \<le> length (data ?nt0)"
    unfolding nt0(1) by simp
  have inv: "small_rehash_inv src ?nt0 ?u
      (fold (Small_Rehash_step v isolate src) (map int [0 ..< ?u]) (?nt0, 0))"
    by (rule small_rehash_inv_fold[OF rows rows0 u room'])
  obtain NT ne where f: "fold (Small_Rehash_step v isolate src) (map int [0 ..< ?u]) (?nt0, 0) = (NT, ne)"
    by (cases "fold (Small_Rehash_step v isolate src) (map int [0 ..< ?u]) (?nt0, 0)") auto
  have ne: "ne = int (length ?L)"
    and D: "data NT = ?L @ drop (nat ne) (data ?nt0)"
    and NT: "NT\<lparr>data := data ?nt0, buckets := buckets ?nt0, chains := chains ?nt0\<rparr> = ?nt0"
    and len: "length (buckets NT) = length (buckets ?nt0)" "length (chains NT) = length (chains ?nt0)"
    using inv unfolding small_rehash_inv_def f by auto
  have NTf: "NumberOfBuckets NT = k" "NumberOfDeletedElements NT = 0"
    using arg_cong[OF NT, of NumberOfBuckets] arg_cong[OF NT, of NumberOfDeletedElements] nt0(4,5)
    by simp_all
  let ?NT' = "NT\<lparr>NumberOfElements := NumberOfElements src\<rparr>"
  have r: "SmallOrderedHashTable_Rehash H v isolate src new_capacity = ?NT'"
    unfolding SmallOrderedHashTable_Rehash_def IterateEntries_def f by simp
  have "UsedCapacity ?NT' = NumberOfElements src"
    using NTf(2) by (simp add: UsedCapacity_def)
  then have used': "UsedCapacity ?NT' = int (length ?L)"
    using nofL by simp
  have ur: "used_rows ?NT' = ?L"
    unfolding used_rows_def used' using D by simp
  have le': "live_entries ?NT' = live_entries src"
    unfolding live_entries_def ur by (simp add: L[unfolded live_entries_def])
  have cap': "Capacity ?NT' = new_capacity"
    unfolding Capacity_def kLoadFactor_def using NTf(1) c by simp
  have lenD: "length (data NT) = nat new_capacity"
    unfolding D ne nt0(1) using lenL by simp
  have rowsNT: "\<forall>row \<in> set (data NT). length row = entrysize v"
    unfolding D using rows rows0 by (auto dest: in_set_takeD in_set_dropD)
  have sz': "table_sizes_ok v ?NT'"
    unfolding table_sizes_ok_def cap' used'
    using NTf(1,2) len nt0(2,3) lenD rowsNT nofL lenL_int c by auto
  have cnt': "table_counts_ok ?NT'"
    unfolding table_counts_ok_def slot_keys_def ur using NTf(2)
    by (simp add: filter_map comp_def)
  have d: "Small_Derived_Rehash H v isolate src new_capacity = ?NT' \<or>
      Small_Derived_Rehash H v isolate src new_capacity = ?NT'\<lparr>Hash := Hash src\<rparr>"
    unfolding Small_Derived_Rehash_def r by (simp add: Let_def)
  then show "table_sizes_ok v (Small_Derived_Rehash H v isolate src new_capacity)"
    "table_counts_ok (Small_Derived_Rehash H v isolate src new_capacity)"
    "live_entries (Small_Derived_Rehash H v isolate src new_capacity) = live_entries src"
    "NumberOfElements (Small_Derived_Rehash H v isolate src new_capacity) = NumberOfElements src"
    "NumberOfDeletedElements (Small_Derived_Rehash H v isolate src new_capacity) = 0"
    "Capacity (Small_Derived_Rehash H v isolate src new_capacity) = new_capacity"
    using sz' cnt' le' cap' NTf(2) by auto
qed

lemma SmallOrderedHashTable_Grow_result:
  assumes sz: "table_sizes_ok v t" and cnt: "table_counts_ok t"
    and nb: "0 < NumberOfBuckets t" and cap: "Capacity t \<le> Small_kMaxCapacity"
    and g: "SmallOrderedHashTable_Grow H v isolate t = Some t1"
  shows "table_sizes_ok v t1" "table_counts_ok t1" "live_entries t1 = live_entries t"
    "UsedCapacity t1 < Capacity t1" "Capacity t1 \<le> Small_kMaxCapacity"
    "0 < NumberOfBuckets t1"
proof -
  let ?cap = "Capacity t"
  have nn: "0 \<le> NumberOfElements t" "0 \<le> NumberOfDeletedElements t"
    "NumberOfElements t + NumberOfDeletedElements t \<le> ?cap"
    using sz unfolding table_sizes_ok_def UsedCapacity_def by auto
  have cap2: "?cap = 2 * NumberOfBuckets t"
    by (simp add: Capacity_def kLoadFactor_def)
  let ?c = "if NumberOfDeletedElements t \<ge> ?cap div 2 then ?cap
            else if 2 * ?cap = 256 then 254 else 2 * ?cap"
  have t1: "t1 = Small_Derived_Rehash H v isolate t ?c" and c254: "?c \<le> 254"
    using g cap unfolding SmallOrderedHashTable_Grow_unfold[THEN conjunct1] Small_kMaxCapacity_def
    by (auto split: if_splits)
  obtain k where k: "0 \<le> k" "?c = 2 * k"
  proof (cases "NumberOfDeletedElements t \<ge> ?cap div 2")
    case True
    then show ?thesis using that[of "NumberOfBuckets t"] nb cap2 by simp
  next
    case False
    show ?thesis
    proof (cases "2 * ?cap = 256")
      case True
      then show ?thesis using that[of 127] False by simp
    next
      case f: False
      then show ?thesis using that[of ?cap] False nb cap2 by simp
    qed
  qed
  have room: "NumberOfElements t < ?c"
    using nn nb cap2 by (auto split: if_splits)
  then have room': "NumberOfElements t \<le> ?c" by simp
  note res = Small_Derived_Rehash_result[OF sz cnt k room', of H isolate, folded t1]
  show "table_sizes_ok v t1" "table_counts_ok t1" "live_entries t1 = live_entries t"
    using res by auto
  show "UsedCapacity t1 < Capacity t1"
    using res(4,5,6) room by (simp add: UsedCapacity_def)
  show "Capacity t1 \<le> Small_kMaxCapacity"
    using res(6) c254 by (simp add: Small_kMaxCapacity_def)
  have "0 < Capacity t1"
    using res(6) room nn(1) by linarith
  then show "0 < NumberOfBuckets t1"
    by (simp add: Capacity_def kLoadFactor_def)
qed

lemma wf_small_buckets:
  assumes "wf_small v isolate t"
  shows "\<forall>h. 0 \<le> Small_HashToBucket t h \<and> nat (Small_HashToBucket t h) < length (buckets t)"
    "HashToFirstEntry t h \<in> set (buckets t)"
    "Small_kNotFound < 0 \<or> int (length (chains t)) \<le> Small_kNotFound"
proof -
  have sz: "table_sizes_ok v t" and nb: "0 < NumberOfBuckets t"
    and cap: "Capacity t \<le> Small_kMaxCapacity"
    using assms unfolding wf_small_def by auto
  show bk: "\<forall>h. 0 \<le> Small_HashToBucket t h \<and> nat (Small_HashToBucket t h) < length (buckets t)"
    using Small_HashToBucket_range[OF nb] table_sizes_okD(4)[OF sz] nb by (simp add: nat_less_iff)
  show "HashToFirstEntry t h \<in> set (buckets t)"
    unfolding HashToFirstEntry_def get_bucket_def using bk by (intro nth_mem) simp
  have "length (chains t) = nat (Capacity t)"
    using sz unfolding table_sizes_ok_def by simp
  then show "Small_kNotFound < 0 \<or> int (length (chains t)) \<le> Small_kNotFound"
    using cap unfolding Small_kMaxCapacity_def Small_kNotFound_def by linarith
qed

lemma small_lookup_absent:
  assumes "\<forall>k. SameValueZero H TheHole k \<longrightarrow> k = TheHole" "wf_small v isolate t"
    "key \<noteq> TheHole" "\<not> contains_key H t key"
  shows "SmallOrderedHashTable_HasKey H isolate t key = Some False"
proof (cases "GetHash isolate key")
  case None
  then show ?thesis
    by (simp add: SmallOrderedHashTable_HasKey_def SmallOrderedHashTable_FindEntry_def)
next
  case (Some hash)
  have "FindInChain Small_kNotFound (SameValueZero H) t key (HashToFirstEntry t hash) = Some NotFound"
  proof (rule walk_absent[where v = v])
    show "table_sizes_ok v t"
      "links_ok Small_kNotFound (nat (UsedCapacity t)) (buckets t) (chains t)"
      using assms(2) unfolding wf_small_def by auto
    show "Small_kNotFound < 0 \<or> int (length (chains t)) \<le> Small_kNotFound"
      "HashToFirstEntry t hash \<in> set (buckets t)"
      using wf_small_buckets[OF assms(2)] by auto
    show "\<forall>k. SameValueZero H TheHole k \<longrightarrow> k = TheHole" "key \<noteq> TheHole"
      "\<not> contains_key H t key"
      by fact+
  qed
  then show ?thesis
    using Some by (simp add: SmallOrderedHashTable_HasKey_def SmallOrderedHashTable_FindEntry_def)
qed

lemma small_lookup_present:
  assumes "hash_ok H isolate" "wf_small v isolate t" "contains_key H t key"
  shows "SmallOrderedHashTable_HasKey H isolate t key = Some True"
proof -
  have sz: "table_sizes_ok v t"
    and l: "links_ok Small_kNotFound (nat (UsedCapacity t)) (buckets t) (chains t)"
    and r: "reach_ok (hashes isolate) (Small_HashToBucket t) (nat (UsedCapacity t)) (buckets t)
              (chains t) (data t)"
    using assms(2) unfolding wf_small_def by auto
  have hs: "\<forall>a b. SameValueZero H a b \<longrightarrow> hashes isolate a = hashes isolate b"
    using assms(1) unfolding hash_ok_def by blast
  from walk_present[OF sz l wf_small_buckets(3)[OF assms(2)] r hs wf_small_buckets(1)[OF assms(2)] assms(3)]
  obtain h e where "hashes isolate key = Some h"
    "FindInChain Small_kNotFound (SameValueZero H) t key (buckets t ! nat (Small_HashToBucket t h))
       = Some (Entry e)"
    by blast
  then show ?thesis
    by (simp add: SmallOrderedHashTable_HasKey_def SmallOrderedHashTable_FindEntry_def GetHash_def
        HashToFirstEntry_def get_bucket_def)
qed

lemma SmallOrderedHashSet_Add_present:
  assumes "hash_ok H isolate" "wf_small SetVariant isolate t" "contains_key H t key"
  shows "SmallOrderedHashSet_Add H isolate t key = Some (Some (isolate, t))"
  unfolding SmallOrderedHashSet_Add_def small_lookup_present[OF assms] by simp

lemma SmallOrderedHashMap_Add_present:
  assumes "hash_ok H isolate" "wf_small MapVariant isolate t" "contains_key H t key"
  shows "SmallOrderedHashMap_Add H isolate t key val = Some (Some (isolate, t))"
  unfolding SmallOrderedHashMap_Add_def small_lookup_present[OF assms] by simp

lemma SmallOrderedHashSet_Add_absent:
  assumes "\<forall>k. SameValueZero H TheHole k \<longrightarrow> k = TheHole" "wf_small SetVariant isolate t"
    and "key \<noteq> TheHole" "\<not> contains_key H t key"
    and h: "GetOrCreateHash H isolate key = (hash, isolate1)"
  shows "SmallOrderedHashSet_Add H isolate t key =
           (case (if UsedCapacity t \<ge> Capacity t
                  then SmallOrderedHashTable_Grow H SetVariant isolate t else Some t) of
              None \<Rightarrow> Some None
            | Some t1 \<Rightarrow>
                Some (Some (isolate1, insert_entry t1 (Small_HashToBucket t1 hash)
                           ((data t1 ! nat (UsedCapacity t1))[kKeyIndex := key]))))"
  unfolding SmallOrderedHashSet_Add_def small_lookup_absent[OF assms(1-4)] option.case bool.case h
  by (simp add: Let_def insert_entry_def set_data_def set_chain_def set_bucket_def
      HashToFirstEntry_def UsedCapacity_def get_bucket_def split: option.splits)

lemma SmallOrderedHashMap_Add_absent:
  assumes "\<forall>k. SameValueZero H TheHole k \<longrightarrow> k = TheHole" "wf_small MapVariant isolate t"
    and "key \<noteq> TheHole" "\<not> contains_key H t key"
    and h: "GetOrCreateHash H isolate key = (hash, isolate1)"
  shows "SmallOrderedHashMap_Add H isolate t key val =
           (case (if UsedCapacity t \<ge> Capacity t
                  then SmallOrderedHashTable_Grow H MapVariant isolate t else Some t) of
              None \<Rightarrow> Some None
            | Some t1 \<Rightarrow>
                Some (Some (isolate1, insert_entry t1 (Small_HashToBucket t1 hash)
                           ((data t1 ! nat (UsedCapacity t1))[kValueOffset := val, kKeyIndex := key]))))"
  unfolding SmallOrderedHashMap_Add_def small_lookup_absent[OF assms(1-4)] option.case bool.case h
  by (simp add: Let_def insert_entry_def set_data_def set_chain_def set_bucket_def
      HashToFirstEntry_def UsedCapacity_def get_bucket_def list_update_row_twice
      split: option.splits)

lemma SmallOrderedNameDictionary_Add_result:
  "SmallOrderedNameDictionary_Add H isolate t key val details =
     (case (if UsedCapacity t \<ge> Capacity t
            then SmallOrderedHashTable_Grow H NameDictionaryVariant isolate t else Some t) of
        None \<Rightarrow> None
      | Some t1 \<Rightarrow>
          Some (isolate, insert_entry t1 (Small_HashToBucket t1 (NameHash H key))
                           ((data t1 ! nat (UsedCapacity t1))
                              [kValueOffset := val, kKeyIndex := key,
                               kPropertyDetailsOffset := details])))"
  unfolding SmallOrderedNameDictionary_Add_def
  by (simp add: Let_def insert_entry_def set_data_def set_chain_def set_bucket_def
      HashToFirstEntry_def UsedCapacity_def get_bucket_def list_update_row_twice
      split: option.splits)

subsection \<open>More well-formed example states\<close>

lemma chain_of_small_examples:
  "chain_of [255, 0, 255, 255] 1 = [1, 0]" "chain_of [255, 0, 255, 255] 2 = [2]"
  by (simp_all add: chain_of.simps[of _ 2] chain_of.simps[of _ 1] chain_of.simps[of _ 0])

lemma example_map_table_wf:
  "wf_large example_host MapVariant (example_isolate hp) example_map_table"
proof -
  have "table_sizes_ok MapVariant example_map_table"
    unfolding table_sizes_ok_def example_map_table_def example_set_table_def
    by (simp add: Capacity_def UsedCapacity_def kLoadFactor_def entrysize_def)
  moreover have "table_counts_ok example_map_table"
    unfolding table_counts_ok_def slot_keys_def used_rows_def example_map_table_def
      example_set_table_def
    by (simp add: UsedCapacity_def kKeyIndex_def IsTheHole_def)
  moreover have "links_ok (kNotFound example_host) (nat (UsedCapacity example_map_table))
      (buckets example_map_table) (chains example_map_table)"
    by (simp add: links_ok_def example_map_table_def example_set_table_def UsedCapacity_def
        example_host_def all_less_numerals)
  moreover have "reach_ok (hashes (example_isolate hp)) (HashToBucket example_map_table)
      (nat (UsedCapacity example_map_table)) (buckets example_map_table)
      (chains example_map_table) (data example_map_table)"
    by (simp add: reach_ok_def example_map_table_def example_set_table_def UsedCapacity_def
        all_less_numerals example_isolate_def kKeyIndex_def IsTheHole_def HashToBucket_def
        chain_of_examples)
  moreover have "Capacity example_map_table \<le> MaxCapacity example_host"
    by (simp add: Capacity_def example_map_table_def example_set_table_def example_host_def
        kLoadFactor_def)
  ultimately show ?thesis
    unfolding wf_large_def by simp
qed

lemma example_small_set_table_wf:
  "wf_small SetVariant (example_isolate hp) example_small_set_table"
proof -
  have "table_sizes_ok SetVariant example_small_set_table"
    unfolding table_sizes_ok_def example_small_set_table_def example_set_table_def
    by (simp add: Capacity_def UsedCapacity_def kLoadFactor_def entrysize_def)
  moreover have "table_counts_ok example_small_set_table"
    unfolding table_counts_ok_def slot_keys_def used_rows_def example_small_set_table_def
      example_set_table_def
    by (simp add: UsedCapacity_def kKeyIndex_def IsTheHole_def)
  moreover have "links_ok Small_kNotFound (nat (UsedCapacity example_small_set_table))
      (buckets example_small_set_table) (chains example_small_set_table)"
    by (simp add: links_ok_def example_small_set_table_def example_set_table_def UsedCapacity_def
        Small_kNotFound_def all_less_numerals)
  moreover have "reach_ok (hashes (example_isolate hp)) (Small_HashToBucket example_small_set_table)
      (nat (UsedCapacity example_small_set_table)) (buckets example_small_set_table)
      (chains example_small_set_table) (data example_small_set_table)"
    by (simp add: reach_ok_def example_small_set_table_def example_set_table_def UsedCapacity_def
        all_less_numerals example_isolate_def kKeyIndex_def IsTheHole_def Small_HashToBucket_def
        chain_of_small_examples)
  moreover have "0 < NumberOfBuckets example_small_set_table"
    "Capacity example_small_set_table \<le> Small_kMaxCapacity"
    by (simp_all add: Capacity_def example_small_set_table_def example_set_table_def
        Small_kMaxCapacity_def kLoadFactor_def)
  ultimately show ?thesis
    unfolding wf_small_def by simp
qed

lemma example_small_map_table_wf:
  "wf_small MapVariant (example_isolate hp) example_small_map_table"
proof -
  have "table_sizes_ok MapVariant example_small_map_table"
    unfolding table_sizes_ok_def example_small_map_table_def example_map_table_def
      example_set_table_def
    by (simp add: Capacity_def UsedCapacity_def kLoadFactor_def entrysize_def)
  moreover have "table_counts_ok example_small_map_table"
    unfolding table_counts_ok_def slot_keys_def used_rows_def example_small_map_table_def
      example_map_table_def example_set_table_def
    by (simp add: UsedCapacity_def kKeyIndex_def IsTheHole_def)
  moreover have "links_ok Small_kNotFound (nat (UsedCapacity example_small_map_table))
      (buckets example_small_map_table) (chains example_small_map_table)"
    by (simp add: links_ok_def example_small_map_table_def example_map_table_def
        example_set_table_def UsedCapacity_def Small_kNotFound_def all_less_numerals)
  moreover have "reach_ok (hashes (example_isolate hp)) (Small_HashToBucket example_small_map_table)
      (nat (UsedCapacity example_small_map_table)) (buckets example_small_map_table)
      (chains example_small_map_table) (data example_small_map_table)"
    by (simp add: reach_ok_def example_small_map_table_def example_map_table_def
        example_set_table_def UsedCapacity_def all_less_numerals example_isolate_def
        kKeyIndex_def IsTheHole_def Small_HashToBucket_def chain_of_small_examples)
  moreover have "0 < NumberOfBuckets example_small_map_table"
    "Capacity example_small_map_table \<le> Small_kMaxCapacity"
    by (simp_all add: Capacity_def example_small_map_table_def example_map_table_def
        example_set_table_def Small_kMaxCapacity_def kLoadFactor_def)
  ultimately show ?thesis
    unfolding wf_small_def by simp
qed

lemma example_live_keys:
  "live_keys example_set_table = [Smi 1, Smi 2]" "live_keys example_map_table = [Smi 1, Smi 2]"
  "live_keys example_small_set_table = [Smi 1, Smi 2]"
  "live_keys example_small_map_table = [Smi 1, Smi 2]"
  by (simp_all add: live_keys_def live_entries_def used_rows_def example_set_table_def
      example_map_table_def example_small_set_table_def example_small_map_table_def
      UsedCapacity_def kKeyIndex_def IsTheHole_def)

subsection \<open>Grow returns the table rehashed or fails\<close>





subsection \<open>Adding a key that is present\<close>

text \<open>
  Claim C6: when the key is in the table, \<open>Add\<close> of a Set or a Map, small or large,
  returns the table it was given and changes nothing: the isolate that comes back, and
  with it every table of the heap, is the one that went in, and so is the small table.
\<close>

theorem Add_of_present_key_changes_nothing:
  assumes "host_ok H" "hash_ok H isolate"
  shows "(wf_large H SetVariant isolate (heap isolate ! a) \<and> contains_key H (heap isolate ! a) key
            \<longrightarrow> OrderedHashSet_Add H isolate a key = Some (Inr (isolate, a))) \<and>
         (wf_large H MapVariant isolate (heap isolate ! a) \<and> contains_key H (heap isolate ! a) key
            \<longrightarrow> OrderedHashMap_Add H isolate a key val = Some (Inr (isolate, a))) \<and>
         (wf_small SetVariant isolate t \<and> contains_key H t key
            \<longrightarrow> SmallOrderedHashSet_Add H isolate t key = Some (Some (isolate, t))) \<and>
         (wf_small MapVariant isolate t \<and> contains_key H t key
            \<longrightarrow> SmallOrderedHashMap_Add H isolate t key val = Some (Some (isolate, t)))"
  using OrderedHashSet_Add_present[OF assms] OrderedHashMap_Add_present[OF assms]
    SmallOrderedHashSet_Add_present[OF assms(2)] SmallOrderedHashMap_Add_present[OF assms(2)]
  by blast

theorem Add_of_present_key_changes_nothing_witness:
  "host_ok example_host \<and> hash_ok example_host (example_isolate [example_set_table]) \<and>
   wf_large example_host SetVariant (example_isolate [example_set_table]) example_set_table \<and>
   contains_key example_host example_set_table (Smi 2) \<and>
   OrderedHashSet_Add example_host (example_isolate [example_set_table]) 0 (Smi 2) =
     Some (Inr (example_isolate [example_set_table], 0)) \<and>
   hash_ok example_host (example_isolate [example_map_table]) \<and>
   wf_large example_host MapVariant (example_isolate [example_map_table]) example_map_table \<and>
   contains_key example_host example_map_table (Smi 2) \<and>
   OrderedHashMap_Add example_host (example_isolate [example_map_table]) 0 (Smi 2) (Smi 7) =
     Some (Inr (example_isolate [example_map_table], 0)) \<and>
   wf_small SetVariant (example_isolate []) example_small_set_table \<and>
   contains_key example_host example_small_set_table (Smi 1) \<and>
   SmallOrderedHashSet_Add example_host (example_isolate []) example_small_set_table (Smi 1) =
     Some (Some (example_isolate [], example_small_set_table)) \<and>
   wf_small MapVariant (example_isolate []) example_small_map_table \<and>
   contains_key example_host example_small_map_table (Smi 1) \<and>
   SmallOrderedHashMap_Add example_host (example_isolate []) example_small_map_table (Smi 1) (Smi 7) =
     Some (Some (example_isolate [], example_small_map_table))"
proof -
  have c: "contains_key example_host example_set_table (Smi 2)"
    "contains_key example_host example_map_table (Smi 2)"
    "contains_key example_host example_small_set_table (Smi 1)"
    "contains_key example_host example_small_map_table (Smi 1)"
    by (simp_all add: contains_key_def example_live_keys example_host_def)
  have w: "wf_large example_host SetVariant (example_isolate [example_set_table])
             (heap (example_isolate [example_set_table]) ! 0)"
    "wf_large example_host MapVariant (example_isolate [example_map_table])
             (heap (example_isolate [example_map_table]) ! 0)"
    using example_set_table_wf example_map_table_wf by simp_all
  show ?thesis
    using host_ok_example hash_ok_example c w
      example_small_set_table_wf example_small_map_table_wf
      Add_of_present_key_changes_nothing[OF host_ok_example hash_ok_example,
        of "[example_set_table]" 0 "Smi 2" "Smi 7" example_small_set_table]
      Add_of_present_key_changes_nothing[OF host_ok_example hash_ok_example,
        of "[example_map_table]" 0 "Smi 2" "Smi 7" example_small_map_table]
      Add_of_present_key_changes_nothing[OF host_ok_example hash_ok_example,
        of "[]" 0 "Smi 1" "Smi 7" example_small_set_table]
      Add_of_present_key_changes_nothing[OF host_ok_example hash_ok_example,
        of "[]" 0 "Smi 1" "Smi 7" example_small_map_table]
    by simp
qed

subsection \<open>A Map keeps the value of a key it holds\<close>

text \<open>
  Claim C10: when a live slot \<open>e\<close> of a Map table holds a key that is same-value-zero to
  \<open>key\<close>, with the value \<open>v\<close> beside it, \<open>Add\<close> of \<open>key\<close> with any value \<open>v'\<close> returns a
  table whose slot \<open>e\<close> still holds that key and the value \<open>v\<close>, in the large form and in the
  small form: the value supplied is not stored.
\<close>

theorem Map_Add_of_present_key_keeps_value:
  assumes "host_ok H" "hash_ok H isolate"
    "0 \<le> e" "e < UsedCapacity t" "\<not> IsTheHole (KeyAt t e)" "SameValueZero H (KeyAt t e) key"
    "get_data t e kValueOffset = v"
  shows "(heap isolate ! a = t \<and> wf_large H MapVariant isolate t \<longrightarrow>
            (\<exists>isolate1 a1. OrderedHashMap_Add H isolate a key v' = Some (Inr (isolate1, a1)) \<and>
               KeyAt (heap isolate1 ! a1) e = KeyAt t e \<and>
               get_data (heap isolate1 ! a1) e kValueOffset = v)) \<and>
         (wf_small MapVariant isolate t \<longrightarrow>
            (\<exists>isolate1 t1. SmallOrderedHashMap_Add H isolate t key v' = Some (Some (isolate1, t1)) \<and>
               KeyAt t1 e = KeyAt t e \<and> get_data t1 e kValueOffset = v))"
proof (intro conjI impI)
  have present: "contains_key H t key" if "table_sizes_ok MapVariant t"
  proof -
    have "nat e < nat (UsedCapacity t)" "KeyAt t (int (nat e)) = KeyAt t e"
      using assms(3,4) by simp_all
    hence "KeyAt t e \<in> set (live_keys t)"
      using assms(5) unfolding live_keys_iff[OF that] by metis
    thus ?thesis
      using assms(6) unfolding contains_key_def by blast
  qed
  {
    assume h: "heap isolate ! a = t \<and> wf_large H MapVariant isolate t"
    hence "contains_key H (heap isolate ! a) key"
      using present unfolding wf_large_def by simp
    hence "OrderedHashMap_Add H isolate a key v' = Some (Inr (isolate, a))"
      using OrderedHashMap_Add_present[OF assms(1,2)] h by simp
    thus "\<exists>isolate1 a1. OrderedHashMap_Add H isolate a key v' = Some (Inr (isolate1, a1)) \<and>
               KeyAt (heap isolate1 ! a1) e = KeyAt t e \<and>
               get_data (heap isolate1 ! a1) e kValueOffset = v"
      using h assms(7) by simp
  }
  {
    assume h: "wf_small MapVariant isolate t"
    hence "contains_key H t key"
      using present unfolding wf_small_def by simp
    hence "SmallOrderedHashMap_Add H isolate t key v' = Some (Some (isolate, t))"
      using SmallOrderedHashMap_Add_present[OF assms(2)] h by simp
    thus "\<exists>isolate1 t1. SmallOrderedHashMap_Add H isolate t key v' = Some (Some (isolate1, t1)) \<and>
               KeyAt t1 e = KeyAt t e \<and> get_data t1 e kValueOffset = v"
      using assms(7) by simp
  }
qed

theorem Map_Add_of_present_key_keeps_value_witness:
  "host_ok example_host \<and> hash_ok example_host (example_isolate [example_map_table]) \<and>
   (0::int) \<le> 2 \<and> 2 < UsedCapacity example_map_table \<and>
   \<not> IsTheHole (KeyAt example_map_table 2) \<and>
   SameValueZero example_host (KeyAt example_map_table 2) (Smi 2) \<and>
   get_data example_map_table 2 kValueOffset = Smi 20 \<and>
   heap (example_isolate [example_map_table]) ! 0 = example_map_table \<and>
   wf_large example_host MapVariant (example_isolate [example_map_table]) example_map_table \<and>
   (\<exists>isolate1 a1.
      OrderedHashMap_Add example_host (example_isolate [example_map_table]) 0 (Smi 2) (Smi 7) =
        Some (Inr (isolate1, a1)) \<and>
      KeyAt (heap isolate1 ! a1) 2 = Smi 2 \<and>
      get_data (heap isolate1 ! a1) 2 kValueOffset = Smi 20) \<and>
   hash_ok example_host (example_isolate []) \<and>
   (0::int) \<le> 0 \<and> 0 < UsedCapacity example_small_map_table \<and>
   \<not> IsTheHole (KeyAt example_small_map_table 0) \<and>
   SameValueZero example_host (KeyAt example_small_map_table 0) (Smi 1) \<and>
   get_data example_small_map_table 0 kValueOffset = Smi 10 \<and>
   wf_small MapVariant (example_isolate []) example_small_map_table \<and>
   (\<exists>isolate1 t1.
      SmallOrderedHashMap_Add example_host (example_isolate []) example_small_map_table
        (Smi 1) (Smi 7) = Some (Some (isolate1, t1)) \<and>
      KeyAt t1 0 = Smi 1 \<and> get_data t1 0 kValueOffset = Smi 10)"
proof -
  have l: "(0::int) \<le> 2 \<and> 2 < UsedCapacity example_map_table \<and>
     \<not> IsTheHole (KeyAt example_map_table 2) \<and>
     SameValueZero example_host (KeyAt example_map_table 2) (Smi 2) \<and>
     get_data example_map_table 2 kValueOffset = Smi 20 \<and> KeyAt example_map_table 2 = Smi 2"
    by (simp add: example_map_table_def example_set_table_def UsedCapacity_def KeyAt_def
        get_data_def kKeyIndex_def kValueOffset_def IsTheHole_def example_host_def)
  have s: "(0::int) \<le> 0 \<and> 0 < UsedCapacity example_small_map_table \<and>
     \<not> IsTheHole (KeyAt example_small_map_table 0) \<and>
     SameValueZero example_host (KeyAt example_small_map_table 0) (Smi 1) \<and>
     get_data example_small_map_table 0 kValueOffset = Smi 10 \<and>
     KeyAt example_small_map_table 0 = Smi 1"
    by (simp add: example_small_map_table_def example_map_table_def example_set_table_def
        UsedCapacity_def KeyAt_def get_data_def kKeyIndex_def kValueOffset_def IsTheHole_def
        example_host_def)
  have h: "heap (example_isolate [example_map_table]) ! 0 = example_map_table"
    by simp
  have l': "(0::int) \<le> 2" "2 < UsedCapacity example_map_table"
     "\<not> IsTheHole (KeyAt example_map_table 2)"
     "SameValueZero example_host (KeyAt example_map_table 2) (Smi 2)"
     "get_data example_map_table 2 kValueOffset = Smi 20"
    using l by blast+
  have s': "(0::int) \<le> 0" "0 < UsedCapacity example_small_map_table"
     "\<not> IsTheHole (KeyAt example_small_map_table 0)"
     "SameValueZero example_host (KeyAt example_small_map_table 0) (Smi 1)"
     "get_data example_small_map_table 0 kValueOffset = Smi 10"
    using s by blast+
  have "\<exists>isolate1 a1.
      OrderedHashMap_Add example_host (example_isolate [example_map_table]) 0 (Smi 2) (Smi 7) =
        Some (Inr (isolate1, a1)) \<and>
      KeyAt (heap isolate1 ! a1) 2 = KeyAt example_map_table 2 \<and>
      get_data (heap isolate1 ! a1) 2 kValueOffset = Smi 20"
    using Map_Add_of_present_key_keeps_value[OF host_ok_example hash_ok_example l',
        of "[example_map_table]" 0 "Smi 7"] h example_map_table_wf[of "[example_map_table]"]
    by blast
  hence "\<exists>isolate1 a1.
      OrderedHashMap_Add example_host (example_isolate [example_map_table]) 0 (Smi 2) (Smi 7) =
        Some (Inr (isolate1, a1)) \<and>
      KeyAt (heap isolate1 ! a1) 2 = Smi 2 \<and>
      get_data (heap isolate1 ! a1) 2 kValueOffset = Smi 20"
    using l by simp
  moreover have "\<exists>isolate1 t1.
      SmallOrderedHashMap_Add example_host (example_isolate []) example_small_map_table
        (Smi 1) (Smi 7) = Some (Some (isolate1, t1)) \<and>
      KeyAt t1 0 = KeyAt example_small_map_table 0 \<and> get_data t1 0 kValueOffset = Smi 10"
    using Map_Add_of_present_key_keeps_value[OF host_ok_example hash_ok_example s',
        of "[]" 0 "Smi 7"] example_small_map_table_wf[of "[]"]
    by blast
  hence "\<exists>isolate1 t1.
      SmallOrderedHashMap_Add example_host (example_isolate []) example_small_map_table
        (Smi 1) (Smi 7) = Some (Some (isolate1, t1)) \<and>
      KeyAt t1 0 = Smi 1 \<and> get_data t1 0 kValueOffset = Smi 10"
    using s by simp
  ultimately show ?thesis
    using l' s' h host_ok_example hash_ok_example example_map_table_wf example_small_map_table_wf
    by blast
qed

subsection \<open>Add writes at the used capacity\<close>

lemma added_at_used_capacity_insert:
  assumes "table_sizes_ok v t" "UsedCapacity t < Capacity t" "row ! kKeyIndex = key"
  shows "added_at_used_capacity t (insert_entry t b row) key"
proof -
  have "0 \<le> UsedCapacity t" "nat (UsedCapacity t) < length (data t)"
    using assms(1,2) unfolding table_sizes_ok_def UsedCapacity_def by auto
  thus ?thesis
    using assms(3)
    unfolding added_at_used_capacity_def insert_entry_def
    by (simp add: UsedCapacity_def KeyAt_def get_data_def)
qed

lemma row_at_used_capacity:
  assumes "table_sizes_ok v t" "UsedCapacity t < Capacity t"
  shows "length (data t ! nat (UsedCapacity t)) = entrysize v"
proof -
  have "nat (UsedCapacity t) < length (data t)"
    using assms unfolding table_sizes_ok_def UsedCapacity_def by auto
  thus ?thesis
    using assms(1) unfolding table_sizes_ok_def by simp
qed

lemma OrderedHashSet_Add_writes_at_used_capacity:
  assumes H: "host_ok H" and key: "key \<noteq> TheHole"
    and a: "a < length (heap isolate)"
    and wf: "wf_large H SetVariant isolate (heap isolate ! a)"
    and absent: "\<not> contains_key H (heap isolate ! a) key"
  shows "case EnsureCapacityForAdding H SetVariant (snd (GetOrCreateHash H isolate key)) a of
           Inl e \<Rightarrow> OrderedHashSet_Add H isolate a key = Some (Inl e)
         | Inr (isolate1, a1) \<Rightarrow>
             \<exists>isolate2. OrderedHashSet_Add H isolate a key = Some (Inr (isolate2, a1)) \<and>
               added_at_used_capacity (heap isolate1 ! a1) (heap isolate2 ! a1) key"
proof -
  obtain hash isolate0 where g: "GetOrCreateHash H isolate key = (hash, isolate0)"
    by (cases "GetOrCreateHash H isolate key")
  have hp: "heap isolate0 = heap isolate"
    by (rule GetOrCreateHash_result(2)[OF g])
  note add = OrderedHashSet_Add_absent[OF H wf key absent g]
  show ?thesis
  proof (cases "EnsureCapacityForAdding H SetVariant isolate0 a")
    case (Inl e)
    then show ?thesis using add g by simp
  next
    case (Inr p)
    obtain isolate1 a1 where p: "p = (isolate1, a1)" by (cases p)
    have r: "EnsureCapacityForAdding H SetVariant isolate0 a = Inr (isolate1, a1)"
      using Inr p by simp
    have pre: "a < length (heap isolate0)" "table_sizes_ok SetVariant (heap isolate0 ! a)"
      "table_counts_ok (heap isolate0 ! a)" "Capacity (heap isolate0 ! a) \<le> MaxCapacity H"
      using a wf unfolding hp wf_large_def by simp_all
    note res = EnsureCapacityForAdding_result[OF H pre r]
    have "length (data (heap isolate1 ! a1) ! nat (UsedCapacity (heap isolate1 ! a1))) = entrysize SetVariant"
      by (rule row_at_used_capacity[OF res(3,5)])
    hence "((data (heap isolate1 ! a1) ! nat (UsedCapacity (heap isolate1 ! a1)))[kKeyIndex := key]) ! kKeyIndex = key"
      by (simp add: entrysize_def kKeyIndex_def)
    from added_at_used_capacity_insert[OF res(3,5) this]
    show ?thesis
      using add g r res(1) by simp
  qed
qed

lemma OrderedHashMap_Add_writes_at_used_capacity:
  assumes H: "host_ok H" and key: "key \<noteq> TheHole"
    and a: "a < length (heap isolate)"
    and wf: "wf_large H MapVariant isolate (heap isolate ! a)"
    and absent: "\<not> contains_key H (heap isolate ! a) key"
  shows "case EnsureCapacityForAdding H MapVariant (snd (GetOrCreateHash H isolate key)) a of
           Inl e \<Rightarrow> OrderedHashMap_Add H isolate a key val = Some (Inl e)
         | Inr (isolate1, a1) \<Rightarrow>
             \<exists>isolate2. OrderedHashMap_Add H isolate a key val = Some (Inr (isolate2, a1)) \<and>
               added_at_used_capacity (heap isolate1 ! a1) (heap isolate2 ! a1) key"
proof -
  obtain hash isolate0 where g: "GetOrCreateHash H isolate key = (hash, isolate0)"
    by (cases "GetOrCreateHash H isolate key")
  have hp: "heap isolate0 = heap isolate"
    by (rule GetOrCreateHash_result(2)[OF g])
  note add = OrderedHashMap_Add_absent[OF H wf key absent g, of val]
  show ?thesis
  proof (cases "EnsureCapacityForAdding H MapVariant isolate0 a")
    case (Inl e)
    then show ?thesis using add g by simp
  next
    case (Inr p)
    obtain isolate1 a1 where p: "p = (isolate1, a1)" by (cases p)
    have r: "EnsureCapacityForAdding H MapVariant isolate0 a = Inr (isolate1, a1)"
      using Inr p by simp
    have pre: "a < length (heap isolate0)" "table_sizes_ok MapVariant (heap isolate0 ! a)"
      "table_counts_ok (heap isolate0 ! a)" "Capacity (heap isolate0 ! a) \<le> MaxCapacity H"
      using a wf unfolding hp wf_large_def by simp_all
    note res = EnsureCapacityForAdding_result[OF H pre r]
    have "length (data (heap isolate1 ! a1) ! nat (UsedCapacity (heap isolate1 ! a1))) = entrysize MapVariant"
      by (rule row_at_used_capacity[OF res(3,5)])
    hence "((data (heap isolate1 ! a1) ! nat (UsedCapacity (heap isolate1 ! a1)))
              [kKeyIndex := key, kValueOffset := val]) ! kKeyIndex = key"
      by (simp add: entrysize_def kKeyIndex_def kValueOffset_def)
    from added_at_used_capacity_insert[OF res(3,5) this]
    show ?thesis
      using add g r res(1) by simp
  qed
qed

lemma OrderedNameDictionary_Add_writes_at_used_capacity:
  assumes H: "host_ok H"
    and a: "a < length (heap isolate)"
    and sz: "table_sizes_ok NameDictionaryVariant (heap isolate ! a)"
    and cnt: "table_counts_ok (heap isolate ! a)"
    and cap: "Capacity (heap isolate ! a) \<le> MaxCapacity H"
  shows "case EnsureCapacityForAdding H NameDictionaryVariant isolate a of
           Inl e \<Rightarrow> OrderedNameDictionary_Add H isolate a key val details = Some (Inl e)
         | Inr (isolate1, a1) \<Rightarrow>
             \<exists>isolate2. OrderedNameDictionary_Add H isolate a key val details =
                           Some (Inr (isolate2, a1)) \<and>
               added_at_used_capacity (heap isolate1 ! a1) (heap isolate2 ! a1) key"
proof -
  note add = OrderedNameDictionary_Add_result[of H isolate a key val details]
  show ?thesis
  proof (cases "EnsureCapacityForAdding H NameDictionaryVariant isolate a")
    case (Inl e)
    then show ?thesis using add by simp
  next
    case (Inr p)
    obtain isolate1 a1 where p: "p = (isolate1, a1)" by (cases p)
    have r: "EnsureCapacityForAdding H NameDictionaryVariant isolate a = Inr (isolate1, a1)"
      using Inr p by simp
    note res = EnsureCapacityForAdding_result[OF H a sz cnt cap r]
    have "length (data (heap isolate1 ! a1) ! nat (UsedCapacity (heap isolate1 ! a1)))
            = entrysize NameDictionaryVariant"
      by (rule row_at_used_capacity[OF res(3,5)])
    hence "((data (heap isolate1 ! a1) ! nat (UsedCapacity (heap isolate1 ! a1)))
              [kKeyIndex := key, kValueOffset := val, kPropertyDetailsOffset := details])
             ! kKeyIndex = key"
      by (simp add: entrysize_def kKeyIndex_def kValueOffset_def kPropertyDetailsOffset_def)
    from added_at_used_capacity_insert[OF res(3,5) this]
    show ?thesis
      using add r res(1) by simp
  qed
qed

lemma small_table_before_insertion:
  assumes sz: "table_sizes_ok v t" and cnt: "table_counts_ok t"
    and nb: "0 < NumberOfBuckets t" and cap: "Capacity t \<le> Small_kMaxCapacity"
    and g: "(if UsedCapacity t \<ge> Capacity t
             then SmallOrderedHashTable_Grow H v isolate t else Some t) = Some t1"
  shows "table_sizes_ok v t1" "UsedCapacity t1 < Capacity t1"
proof -
  have "table_sizes_ok v t1 \<and> UsedCapacity t1 < Capacity t1"
  proof (cases "UsedCapacity t \<ge> Capacity t")
    case True
    then have "SmallOrderedHashTable_Grow H v isolate t = Some t1"
      using g by simp
    from SmallOrderedHashTable_Grow_result(1,4)[OF sz cnt nb cap this]
    show ?thesis by simp
  next
    case False
    then show ?thesis using g sz by simp
  qed
  thus "table_sizes_ok v t1" "UsedCapacity t1 < Capacity t1"
    by simp_all
qed

lemma SmallOrderedHashSet_Add_writes_at_used_capacity:
  assumes H: "host_ok H" and key: "key \<noteq> TheHole"
    and wf: "wf_small SetVariant isolate t"
    and absent: "\<not> contains_key H t key"
  shows "case (if UsedCapacity t \<ge> Capacity t
               then SmallOrderedHashTable_Grow H SetVariant isolate t else Some t) of
           None \<Rightarrow> SmallOrderedHashSet_Add H isolate t key = Some None
         | Some t1 \<Rightarrow>
             \<exists>isolate2 t2. SmallOrderedHashSet_Add H isolate t key = Some (Some (isolate2, t2)) \<and>
               added_at_used_capacity t1 t2 key"
proof -
  obtain hash isolate0 where g: "GetOrCreateHash H isolate key = (hash, isolate0)"
    by (cases "GetOrCreateHash H isolate key")
  have svz: "\<forall>k. SameValueZero H TheHole k \<longrightarrow> k = TheHole"
    using H unfolding host_ok_def by simp
  note add = SmallOrderedHashSet_Add_absent[OF svz wf key absent g]
  show ?thesis
  proof (cases "if UsedCapacity t \<ge> Capacity t
               then SmallOrderedHashTable_Grow H SetVariant isolate t else Some t")
    case None
    then show ?thesis using add by simp
  next
    case (Some t1)
    have pre: "table_sizes_ok SetVariant t" "table_counts_ok t" "0 < NumberOfBuckets t"
      "Capacity t \<le> Small_kMaxCapacity"
      using wf unfolding wf_small_def by simp_all
    note res = small_table_before_insertion[OF pre Some]
    have "length (data t1 ! nat (UsedCapacity t1)) = entrysize SetVariant"
      by (rule row_at_used_capacity[OF res])
    hence "((data t1 ! nat (UsedCapacity t1))[kKeyIndex := key]) ! kKeyIndex = key"
      by (simp add: entrysize_def kKeyIndex_def)
    from added_at_used_capacity_insert[OF res this]
    show ?thesis
      using add Some by simp
  qed
qed

lemma SmallOrderedHashMap_Add_writes_at_used_capacity:
  assumes H: "host_ok H" and key: "key \<noteq> TheHole"
    and wf: "wf_small MapVariant isolate t"
    and absent: "\<not> contains_key H t key"
  shows "case (if UsedCapacity t \<ge> Capacity t
               then SmallOrderedHashTable_Grow H MapVariant isolate t else Some t) of
           None \<Rightarrow> SmallOrderedHashMap_Add H isolate t key val = Some None
         | Some t1 \<Rightarrow>
             \<exists>isolate2 t2. SmallOrderedHashMap_Add H isolate t key val =
                               Some (Some (isolate2, t2)) \<and>
               added_at_used_capacity t1 t2 key"
proof -
  obtain hash isolate0 where g: "GetOrCreateHash H isolate key = (hash, isolate0)"
    by (cases "GetOrCreateHash H isolate key")
  have svz: "\<forall>k. SameValueZero H TheHole k \<longrightarrow> k = TheHole"
    using H unfolding host_ok_def by simp
  note add = SmallOrderedHashMap_Add_absent[OF svz wf key absent g, of val]
  show ?thesis
  proof (cases "if UsedCapacity t \<ge> Capacity t
               then SmallOrderedHashTable_Grow H MapVariant isolate t else Some t")
    case None
    then show ?thesis using add by simp
  next
    case (Some t1)
    have pre: "table_sizes_ok MapVariant t" "table_counts_ok t" "0 < NumberOfBuckets t"
      "Capacity t \<le> Small_kMaxCapacity"
      using wf unfolding wf_small_def by simp_all
    note res = small_table_before_insertion[OF pre Some]
    have "length (data t1 ! nat (UsedCapacity t1)) = entrysize MapVariant"
      by (rule row_at_used_capacity[OF res])
    hence "((data t1 ! nat (UsedCapacity t1))[kValueOffset := val, kKeyIndex := key]) ! kKeyIndex = key"
      by (simp add: entrysize_def kKeyIndex_def)
    from added_at_used_capacity_insert[OF res this]
    show ?thesis
      using add Some by simp
  qed
qed

lemma SmallOrderedNameDictionary_Add_writes_at_used_capacity:
  assumes pre: "table_sizes_ok NameDictionaryVariant t" "table_counts_ok t"
    "0 < NumberOfBuckets t" "Capacity t \<le> Small_kMaxCapacity"
  shows "case (if UsedCapacity t \<ge> Capacity t
               then SmallOrderedHashTable_Grow H NameDictionaryVariant isolate t else Some t) of
           None \<Rightarrow> SmallOrderedNameDictionary_Add H isolate t key val details = None
         | Some t1 \<Rightarrow>
             \<exists>isolate2 t2. SmallOrderedNameDictionary_Add H isolate t key val details =
                               Some (isolate2, t2) \<and>
               added_at_used_capacity t1 t2 key"
proof -
  note add = SmallOrderedNameDictionary_Add_result[of H isolate t key val details]
  show ?thesis
  proof (cases "if UsedCapacity t \<ge> Capacity t
               then SmallOrderedHashTable_Grow H NameDictionaryVariant isolate t else Some t")
    case None
    then show ?thesis using add by simp
  next
    case (Some t1)
    note res = small_table_before_insertion[OF pre Some]
    have "length (data t1 ! nat (UsedCapacity t1)) = entrysize NameDictionaryVariant"
      by (rule row_at_used_capacity[OF res])
    hence "((data t1 ! nat (UsedCapacity t1))
              [kValueOffset := val, kKeyIndex := key, kPropertyDetailsOffset := details])
             ! kKeyIndex = key"
      by (simp add: entrysize_def kKeyIndex_def kValueOffset_def kPropertyDetailsOffset_def)
    from added_at_used_capacity_insert[OF res this]
    show ?thesis
      using add Some by simp
  qed
qed

text \<open>
  Claim C2: an \<open>Add\<close> of a key that is not in the table first makes room
  (\<open>EnsureCapacityForAdding\<close> in the large form, \<open>Grow\<close> when the small table is full) and,
  unless that step fails, returns a table that differs from the one the step gave in this
  way only: the key is in the slot whose index was the used capacity
  \<open>NumberOfElements + NumberOfDeletedElements\<close>, the used capacity is one more, and no other
  slot, so no slot below it and no tombstone, has been written. This holds for the Set, the
  Map and the NameDictionary, large and small; \<open>Add\<close> of a NameDictionary does not look the
  key up, so there the key may be any.
\<close>

theorem Add_writes_at_used_capacity:
  assumes "host_ok H" "key \<noteq> TheHole"
  shows "(a < length (heap isolate) \<and> wf_large H SetVariant isolate (heap isolate ! a) \<and>
          \<not> contains_key H (heap isolate ! a) key \<longrightarrow>
            (case EnsureCapacityForAdding H SetVariant (snd (GetOrCreateHash H isolate key)) a of
               Inl e \<Rightarrow> OrderedHashSet_Add H isolate a key = Some (Inl e)
             | Inr (isolate1, a1) \<Rightarrow>
                 \<exists>isolate2. OrderedHashSet_Add H isolate a key = Some (Inr (isolate2, a1)) \<and>
                   added_at_used_capacity (heap isolate1 ! a1) (heap isolate2 ! a1) key)) \<and>
         (a < length (heap isolate) \<and> wf_large H MapVariant isolate (heap isolate ! a) \<and>
          \<not> contains_key H (heap isolate ! a) key \<longrightarrow>
            (case EnsureCapacityForAdding H MapVariant (snd (GetOrCreateHash H isolate key)) a of
               Inl e \<Rightarrow> OrderedHashMap_Add H isolate a key val = Some (Inl e)
             | Inr (isolate1, a1) \<Rightarrow>
                 \<exists>isolate2. OrderedHashMap_Add H isolate a key val = Some (Inr (isolate2, a1)) \<and>
                   added_at_used_capacity (heap isolate1 ! a1) (heap isolate2 ! a1) key)) \<and>
         (a < length (heap isolate) \<and> table_sizes_ok NameDictionaryVariant (heap isolate ! a) \<and>
          table_counts_ok (heap isolate ! a) \<and> Capacity (heap isolate ! a) \<le> MaxCapacity H \<longrightarrow>
            (case EnsureCapacityForAdding H NameDictionaryVariant isolate a of
               Inl e \<Rightarrow> OrderedNameDictionary_Add H isolate a key val details = Some (Inl e)
             | Inr (isolate1, a1) \<Rightarrow>
                 \<exists>isolate2. OrderedNameDictionary_Add H isolate a key val details =
                               Some (Inr (isolate2, a1)) \<and>
                   added_at_used_capacity (heap isolate1 ! a1) (heap isolate2 ! a1) key)) \<and>
         (wf_small SetVariant isolate t \<and> \<not> contains_key H t key \<longrightarrow>
            (case (if UsedCapacity t \<ge> Capacity t
                   then SmallOrderedHashTable_Grow H SetVariant isolate t else Some t) of
               None \<Rightarrow> SmallOrderedHashSet_Add H isolate t key = Some None
             | Some t1 \<Rightarrow>
                 \<exists>isolate2 t2. SmallOrderedHashSet_Add H isolate t key = Some (Some (isolate2, t2)) \<and>
                   added_at_used_capacity t1 t2 key)) \<and>
         (wf_small MapVariant isolate t \<and> \<not> contains_key H t key \<longrightarrow>
            (case (if UsedCapacity t \<ge> Capacity t
                   then SmallOrderedHashTable_Grow H MapVariant isolate t else Some t) of
               None \<Rightarrow> SmallOrderedHashMap_Add H isolate t key val = Some None
             | Some t1 \<Rightarrow>
                 \<exists>isolate2 t2. SmallOrderedHashMap_Add H isolate t key val =
                                   Some (Some (isolate2, t2)) \<and>
                   added_at_used_capacity t1 t2 key)) \<and>
         (table_sizes_ok NameDictionaryVariant t \<and> table_counts_ok t \<and>
          0 < NumberOfBuckets t \<and> Capacity t \<le> Small_kMaxCapacity \<longrightarrow>
            (case (if UsedCapacity t \<ge> Capacity t
                   then SmallOrderedHashTable_Grow H NameDictionaryVariant isolate t else Some t) of
               None \<Rightarrow> SmallOrderedNameDictionary_Add H isolate t key val details = None
             | Some t1 \<Rightarrow>
                 \<exists>isolate2 t2. SmallOrderedNameDictionary_Add H isolate t key val details =
                                   Some (isolate2, t2) \<and>
                   added_at_used_capacity t1 t2 key))"
proof (intro conjI impI)
  assume "a < length (heap isolate) \<and> wf_large H SetVariant isolate (heap isolate ! a) \<and>
          \<not> contains_key H (heap isolate ! a) key"
  thus "case EnsureCapacityForAdding H SetVariant (snd (GetOrCreateHash H isolate key)) a of
               Inl e \<Rightarrow> OrderedHashSet_Add H isolate a key = Some (Inl e)
             | Inr (isolate1, a1) \<Rightarrow>
                 \<exists>isolate2. OrderedHashSet_Add H isolate a key = Some (Inr (isolate2, a1)) \<and>
                   added_at_used_capacity (heap isolate1 ! a1) (heap isolate2 ! a1) key"
    using OrderedHashSet_Add_writes_at_used_capacity[OF assms] by blast
next
  assume "a < length (heap isolate) \<and> wf_large H MapVariant isolate (heap isolate ! a) \<and>
          \<not> contains_key H (heap isolate ! a) key"
  thus "case EnsureCapacityForAdding H MapVariant (snd (GetOrCreateHash H isolate key)) a of
               Inl e \<Rightarrow> OrderedHashMap_Add H isolate a key val = Some (Inl e)
             | Inr (isolate1, a1) \<Rightarrow>
                 \<exists>isolate2. OrderedHashMap_Add H isolate a key val = Some (Inr (isolate2, a1)) \<and>
                   added_at_used_capacity (heap isolate1 ! a1) (heap isolate2 ! a1) key"
    using OrderedHashMap_Add_writes_at_used_capacity[OF assms] by blast
next
  assume "a < length (heap isolate) \<and> table_sizes_ok NameDictionaryVariant (heap isolate ! a) \<and>
          table_counts_ok (heap isolate ! a) \<and> Capacity (heap isolate ! a) \<le> MaxCapacity H"
  thus "case EnsureCapacityForAdding H NameDictionaryVariant isolate a of
               Inl e \<Rightarrow> OrderedNameDictionary_Add H isolate a key val details = Some (Inl e)
             | Inr (isolate1, a1) \<Rightarrow>
                 \<exists>isolate2. OrderedNameDictionary_Add H isolate a key val details =
                               Some (Inr (isolate2, a1)) \<and>
                   added_at_used_capacity (heap isolate1 ! a1) (heap isolate2 ! a1) key"
    using OrderedNameDictionary_Add_writes_at_used_capacity[OF assms(1)] by blast
next
  assume "wf_small SetVariant isolate t \<and> \<not> contains_key H t key"
  thus "case (if UsedCapacity t \<ge> Capacity t
                   then SmallOrderedHashTable_Grow H SetVariant isolate t else Some t) of
               None \<Rightarrow> SmallOrderedHashSet_Add H isolate t key = Some None
             | Some t1 \<Rightarrow>
                 \<exists>isolate2 t2. SmallOrderedHashSet_Add H isolate t key = Some (Some (isolate2, t2)) \<and>
                   added_at_used_capacity t1 t2 key"
    using SmallOrderedHashSet_Add_writes_at_used_capacity[OF assms] by blast
next
  assume "wf_small MapVariant isolate t \<and> \<not> contains_key H t key"
  thus "case (if UsedCapacity t \<ge> Capacity t
                   then SmallOrderedHashTable_Grow H MapVariant isolate t else Some t) of
               None \<Rightarrow> SmallOrderedHashMap_Add H isolate t key val = Some None
             | Some t1 \<Rightarrow>
                 \<exists>isolate2 t2. SmallOrderedHashMap_Add H isolate t key val =
                                   Some (Some (isolate2, t2)) \<and>
                   added_at_used_capacity t1 t2 key"
    using SmallOrderedHashMap_Add_writes_at_used_capacity[OF assms] by blast
next
  assume "table_sizes_ok NameDictionaryVariant t \<and> table_counts_ok t \<and>
          0 < NumberOfBuckets t \<and> Capacity t \<le> Small_kMaxCapacity"
  thus "case (if UsedCapacity t \<ge> Capacity t
                   then SmallOrderedHashTable_Grow H NameDictionaryVariant isolate t else Some t) of
               None \<Rightarrow> SmallOrderedNameDictionary_Add H isolate t key val details = None
             | Some t1 \<Rightarrow>
                 \<exists>isolate2 t2. SmallOrderedNameDictionary_Add H isolate t key val details =
                                   Some (isolate2, t2) \<and>
                   added_at_used_capacity t1 t2 key"
    using SmallOrderedNameDictionary_Add_writes_at_used_capacity by blast
qed

theorem Add_writes_at_used_capacity_witness:
  "host_ok example_host \<and> Smi 3 \<noteq> TheHole \<and>
   0 < length (heap (example_isolate [example_set_table])) \<and>
   wf_large example_host SetVariant (example_isolate [example_set_table])
     (heap (example_isolate [example_set_table]) ! 0) \<and>
   \<not> contains_key example_host (heap (example_isolate [example_set_table]) ! 0) (Smi 3) \<and>
   (\<exists>isolate2. OrderedHashSet_Add example_host (example_isolate [example_set_table]) 0 (Smi 3) =
        Some (Inr (isolate2, 0)) \<and>
      added_at_used_capacity example_set_table (heap isolate2 ! 0) (Smi 3)) \<and>
   0 < length (heap (example_isolate [example_map_table])) \<and>
   wf_large example_host MapVariant (example_isolate [example_map_table])
     (heap (example_isolate [example_map_table]) ! 0) \<and>
   \<not> contains_key example_host (heap (example_isolate [example_map_table]) ! 0) (Smi 3) \<and>
   (\<exists>isolate2. OrderedHashMap_Add example_host (example_isolate [example_map_table]) 0 (Smi 3)
                  (Smi 30) = Some (Inr (isolate2, 0)) \<and>
      added_at_used_capacity example_map_table (heap isolate2 ! 0) (Smi 3)) \<and>
   0 < length (heap (example_isolate [example_dict_table])) \<and>
   table_sizes_ok NameDictionaryVariant (heap (example_isolate [example_dict_table]) ! 0) \<and>
   table_counts_ok (heap (example_isolate [example_dict_table]) ! 0) \<and>
   Capacity (heap (example_isolate [example_dict_table]) ! 0) \<le> MaxCapacity example_host \<and>
   (\<exists>isolate2. OrderedNameDictionary_Add example_host (example_isolate [example_dict_table]) 0
                  (Smi 3) (Smi 30) (Smi 0) = Some (Inr (isolate2, 0)) \<and>
      added_at_used_capacity example_dict_table (heap isolate2 ! 0) (Smi 3)) \<and>
   wf_small SetVariant (example_isolate []) example_small_set_table \<and>
   \<not> contains_key example_host example_small_set_table (Smi 3) \<and>
   (\<exists>isolate2 t2. SmallOrderedHashSet_Add example_host (example_isolate [])
                     example_small_set_table (Smi 3) = Some (Some (isolate2, t2)) \<and>
      added_at_used_capacity example_small_set_table t2 (Smi 3)) \<and>
   wf_small MapVariant (example_isolate []) example_small_map_table \<and>
   \<not> contains_key example_host example_small_map_table (Smi 3) \<and>
   (\<exists>isolate2 t2. SmallOrderedHashMap_Add example_host (example_isolate [])
                     example_small_map_table (Smi 3) (Smi 30) = Some (Some (isolate2, t2)) \<and>
      added_at_used_capacity example_small_map_table t2 (Smi 3)) \<and>
   table_sizes_ok NameDictionaryVariant example_small_dict_table \<and>
   table_counts_ok example_small_dict_table \<and>
   0 < NumberOfBuckets example_small_dict_table \<and>
   Capacity example_small_dict_table \<le> Small_kMaxCapacity \<and>
   (\<exists>isolate2 t2. SmallOrderedNameDictionary_Add example_host (example_isolate [])
                     example_small_dict_table (Smi 3) (Smi 30) (Smi 0) = Some (isolate2, t2) \<and>
      added_at_used_capacity example_small_dict_table t2 (Smi 3))"
proof -
  have k: "Smi 3 \<noteq> TheHole"
    by simp
  have nc: "\<not> contains_key example_host example_set_table (Smi 3)"
    "\<not> contains_key example_host example_map_table (Smi 3)"
    "\<not> contains_key example_host example_small_set_table (Smi 3)"
    "\<not> contains_key example_host example_small_map_table (Smi 3)"
    by (simp_all add: contains_key_def example_live_keys example_host_def)
  have dl: "table_sizes_ok NameDictionaryVariant example_dict_table"
    "table_counts_ok example_dict_table"
    "Capacity example_dict_table \<le> MaxCapacity example_host"
    unfolding table_sizes_ok_def table_counts_ok_def slot_keys_def used_rows_def
      example_dict_table_def example_set_table_def
    by (simp_all add: Capacity_def UsedCapacity_def kLoadFactor_def entrysize_def kKeyIndex_def
        IsTheHole_def example_host_def)
  have ds: "table_sizes_ok NameDictionaryVariant example_small_dict_table"
    "table_counts_ok example_small_dict_table"
    "0 < NumberOfBuckets example_small_dict_table"
    "Capacity example_small_dict_table \<le> Small_kMaxCapacity"
    unfolding table_sizes_ok_def table_counts_ok_def slot_keys_def used_rows_def
      example_small_dict_table_def example_dict_table_def example_set_table_def
    by (simp_all add: Capacity_def UsedCapacity_def kLoadFactor_def entrysize_def kKeyIndex_def
        IsTheHole_def Small_kMaxCapacity_def)
  have g: "GetOrCreateHash example_host (example_isolate hp) (Smi 3) = (3, example_isolate hp)"
    for hp
    by (simp add: GetOrCreateHash_def example_isolate_def)
  have room: "EnsureCapacityForAdding example_host v (example_isolate [example_set_table]) 0
                = Inr (example_isolate [example_set_table], 0)"
    "EnsureCapacityForAdding example_host v (example_isolate [example_map_table]) 0
                = Inr (example_isolate [example_map_table], 0)"
    "EnsureCapacityForAdding example_host v (example_isolate [example_dict_table]) 0
                = Inr (example_isolate [example_dict_table], 0)" for v
    unfolding EnsureCapacityForAdding_unfold
    by (simp_all add: example_set_table_def example_map_table_def example_dict_table_def
        Capacity_def kLoadFactor_def)
  have small_room: "\<not> UsedCapacity example_small_set_table \<ge> Capacity example_small_set_table"
    "\<not> UsedCapacity example_small_map_table \<ge> Capacity example_small_map_table"
    "\<not> UsedCapacity example_small_dict_table \<ge> Capacity example_small_dict_table"
    by (simp_all add: example_small_set_table_def example_small_map_table_def
        example_small_dict_table_def example_set_table_def example_map_table_def
        example_dict_table_def Capacity_def UsedCapacity_def kLoadFactor_def)
  note A = Add_writes_at_used_capacity[OF host_ok_example k,
      of 0 "example_isolate [example_set_table]" "Smi 30" "Smi 0" example_small_set_table]
  note B = Add_writes_at_used_capacity[OF host_ok_example k,
      of 0 "example_isolate [example_map_table]" "Smi 30" "Smi 0" example_small_map_table]
  note C = Add_writes_at_used_capacity[OF host_ok_example k,
      of 0 "example_isolate [example_dict_table]" "Smi 30" "Smi 0" example_small_dict_table]
  have 1: "\<exists>isolate2. OrderedHashSet_Add example_host (example_isolate [example_set_table]) 0 (Smi 3) =
        Some (Inr (isolate2, 0)) \<and>
      added_at_used_capacity example_set_table (heap isolate2 ! 0) (Smi 3)"
    using A example_set_table_wf[of "[example_set_table]"] nc(1)
    by (simp add: g room)
  have 2: "\<exists>isolate2. OrderedHashMap_Add example_host (example_isolate [example_map_table]) 0 (Smi 3)
                  (Smi 30) = Some (Inr (isolate2, 0)) \<and>
      added_at_used_capacity example_map_table (heap isolate2 ! 0) (Smi 3)"
    using B example_map_table_wf[of "[example_map_table]"] nc(2)
    by (simp add: g room)
  have 3: "\<exists>isolate2. OrderedNameDictionary_Add example_host (example_isolate [example_dict_table]) 0
                  (Smi 3) (Smi 30) (Smi 0) = Some (Inr (isolate2, 0)) \<and>
      added_at_used_capacity example_dict_table (heap isolate2 ! 0) (Smi 3)"
    using C dl
    by (simp add: g room)
  have 4: "\<exists>isolate2 t2. SmallOrderedHashSet_Add example_host (example_isolate [])
                     example_small_set_table (Smi 3) = Some (Some (isolate2, t2)) \<and>
      added_at_used_capacity example_small_set_table t2 (Smi 3)"
    using Add_writes_at_used_capacity[OF host_ok_example k,
      of 0 "example_isolate []" "Smi 30" "Smi 0" example_small_set_table]
      example_small_set_table_wf[of "[]"] nc(3) small_room(1)
    by simp
  have 5: "\<exists>isolate2 t2. SmallOrderedHashMap_Add example_host (example_isolate [])
                     example_small_map_table (Smi 3) (Smi 30) = Some (Some (isolate2, t2)) \<and>
      added_at_used_capacity example_small_map_table t2 (Smi 3)"
    using Add_writes_at_used_capacity[OF host_ok_example k,
      of 0 "example_isolate []" "Smi 30" "Smi 0" example_small_map_table]
      example_small_map_table_wf[of "[]"] nc(4) small_room(2)
    by simp
  have 6: "\<exists>isolate2 t2. SmallOrderedNameDictionary_Add example_host (example_isolate [])
                     example_small_dict_table (Smi 3) (Smi 30) (Smi 0) = Some (isolate2, t2) \<and>
      added_at_used_capacity example_small_dict_table t2 (Smi 3)"
    using Add_writes_at_used_capacity[OF host_ok_example k,
      of 0 "example_isolate []" "Smi 30" "Smi 0" example_small_dict_table]
      ds small_room(3)
    by simp
  show ?thesis
    using host_ok_example nc dl ds example_set_table_wf example_map_table_wf
      example_small_set_table_wf example_small_map_table_wf 1 2 3 4 5 6
    by simp
qed

subsection \<open>Promotion of a small Set\<close>











subsection \<open>The full small table of the example\<close>














end
